theory Spec2Isabelle
  imports Complex_Main "HOL-Library.Word" "HOL-Library.Monad_Syntax"
begin

section \<open>Platform conventions\<close>

text \<open>
  The actuator node runs on a Teensy 4.1 (32-bit ARM). \<^verbatim>\<open>unsigned long\<close> is a 32-bit
  word whose subtraction wraps. \<^verbatim>\<open>int\<close> is a 32-bit two's-complement integer: its
  values are written as mathematical integers, and the sum, the difference and the
  negation \<open>Motor::update\<close> forms, whose operands are not bounded by the code, are reduced
  into the 32-bit range by \<open>wrap32\<close>, which is what the compiled code does on overflow
  (in C++ the overflow itself is undefined). Lemma \<open>Motor_update_no_overflow\<close> below
  shows that nothing wraps on a motor whose step is at most 2147483392. \<^verbatim>\<open>char\<close> is a
  byte.
  \<^verbatim>\<open>float\<close> is IEEE-754 binary32 and \<^verbatim>\<open>double\<close> binary64, computed by the
  FPU of the Cortex-M7: a value is modelled as the real number it denotes, and every
  operation returns the exact result rounded to the nearest value of the format, ties to
  even. The exponent range is not modelled: no overflow to infinity, no subnormal numbers
  and no NaN.

  Peripheral writes (analogWrite, the PCA9685 pulse registers, the SD card, the watchdog)
  belong to external collaborators and are not part of the state; the LED latch written
  by digitalWrite is kept, since the scanner logic indexes a pin table to reach it.
\<close>

type_synonym millis = "32 word"

definition NUL :: char where
  "NUL = CHR 0x00"

text \<open>The Arduino core macro \<^verbatim>\<open>constrain(amt, low, high)\<close>.\<close>

definition constrain :: "'a::linorder \<Rightarrow> 'a \<Rightarrow> 'a \<Rightarrow> 'a" where
  "constrain amt low high = (if amt < low then low else if amt > high then high else amt)"

text \<open>The 32-bit range of \<^verbatim>\<open>int\<close>, and the reduction into it.\<close>

definition in_int32 :: "int \<Rightarrow> bool" where
  "in_int32 x = (- 2147483648 \<le> x \<and> x \<le> 2147483647)"

definition wrap32 :: "int \<Rightarrow> int" where
  "wrap32 x = (x + 2147483648) mod 4294967296 - 2147483648"

section \<open>Motor (MotorDriver.h, MotorDriver.cpp)\<close>

record Motor =
  RPWM :: int
  LPWM :: int
  REN :: int
  LEN :: int
  targetPWM :: int
  currentPWM :: int
  pwmStep :: int

definition Motor_new :: "int \<Rightarrow> int \<Rightarrow> int \<Rightarrow> int \<Rightarrow> int \<Rightarrow> Motor" where
  "Motor_new rpwmPin lpwmPin renPin lenPin step =
     \<lparr>RPWM = rpwmPin, LPWM = lpwmPin, REN = renPin, LEN = lenPin,
      targetPWM = 0, currentPWM = 0, pwmStep = step\<rparr>"

definition Motor_setTarget :: "int \<Rightarrow> Motor \<Rightarrow> Motor" where
  "Motor_setTarget pwm m = m\<lparr>targetPWM := constrain pwm (- 255) 255\<rparr>"

definition Motor_update :: "Motor \<Rightarrow> Motor" where
  "Motor_update m =
     (if currentPWM m < targetPWM m
      then m\<lparr>currentPWM := min (wrap32 (currentPWM m + pwmStep m)) (targetPWM m)\<rparr>
      else if currentPWM m > targetPWM m
      then m\<lparr>currentPWM := max (wrap32 (currentPWM m - pwmStep m)) (targetPWM m)\<rparr>
      else m)"

text \<open>The duty cycles \<open>Motor::update\<close> hands to analogWrite: (RPWM line, LPWM line).\<close>

definition Motor_duty :: "Motor \<Rightarrow> int \<times> int" where
  "Motor_duty m = (if currentPWM m \<ge> 0 then (currentPWM m, 0) else (0, wrap32 (- currentPWM m)))"

definition Motor_emergencyStop :: "Motor \<Rightarrow> Motor" where
  "Motor_emergencyStop m = m\<lparr>targetPWM := 0, currentPWM := 0\<rparr>"

definition Motor_begin :: "Motor \<Rightarrow> Motor" where
  "Motor_begin m = Motor_emergencyStop m"

definition getCurrentPWM :: "Motor \<Rightarrow> int" where
  "getCurrentPWM m = currentPWM m"

text \<open>A call of the public interface after construction.\<close>

datatype Motor_call = SetTarget int | Update | EmergencyStop

fun Motor_do :: "Motor_call \<Rightarrow> Motor \<Rightarrow> Motor" where
  "Motor_do (SetTarget pwm) m = Motor_setTarget pwm m"
| "Motor_do Update m = Motor_update m"
| "Motor_do EmergencyStop m = Motor_emergencyStop m"

section \<open>Floating-point arithmetic (binary32, binary64)\<close>

text \<open>\<open>floor_log2 n\<close> is the position of the leading bit of an integer \<open>n \<ge> 1\<close>, and
  \<open>ilog2 x\<close> the binary exponent of a real \<open>x > 0\<close>: the \<open>e\<close> with
  \<open>2 powi e \<le> x < 2 powi (e + 1)\<close> (lemma \<open>ilog2_bounds\<close>).\<close>

function floor_log2 :: "int \<Rightarrow> int" where
  "floor_log2 n = (if n < 2 then 0 else 1 + floor_log2 (n div 2))"
  by pat_completeness auto
termination
  by (relation "measure nat") auto

declare floor_log2.simps [simp del]

definition ilog2 :: "real \<Rightarrow> int" where
  "ilog2 x = (if x \<ge> 1 then floor_log2 \<lfloor>x\<rfloor> else - (1 + floor_log2 (\<lceil>1 / x\<rceil> - 1)))"

text \<open>The nearest integer, a tie going to the even one.\<close>

definition round_even :: "real \<Rightarrow> int" where
  "round_even q =
     (let f = \<lfloor>q\<rfloor>; r = q - of_int f
      in if r < 1 / 2 then f else if r > 1 / 2 then f + 1 else if even f then f else f + 1)"

text \<open>\<open>round_to p x\<close> is \<open>x\<close> rounded to \<open>p\<close> significant bits: the nearest multiple of
  the unit in the last place, \<open>2 powi (e - (p - 1))\<close> for the exponent \<open>e\<close> of \<open>x\<close>.
  \<^verbatim>\<open>float\<close> has 24 significant bits, \<^verbatim>\<open>double\<close> 53.\<close>

definition round_to :: "nat \<Rightarrow> real \<Rightarrow> real" where
  "round_to p x =
     (if x = 0 then 0
      else (let u = 2 powi (ilog2 \<bar>x\<bar> - (int p - 1)) in of_int (round_even (x / u)) * u))"

definition fadd :: "real \<Rightarrow> real \<Rightarrow> real" where
  "fadd a b = round_to 24 (a + b)"

definition fsub :: "real \<Rightarrow> real \<Rightarrow> real" where
  "fsub a b = round_to 24 (a - b)"

definition fmul :: "real \<Rightarrow> real \<Rightarrow> real" where
  "fmul a b = round_to 24 (a * b)"

text \<open>A decimal literal without suffix is a \<^verbatim>\<open>double\<close>; initialising a
  \<^verbatim>\<open>float\<close> with it rounds a second time. The literals 2.0 and 1.0 and the integers
  90, 0 and 180 are values of both formats (lemma \<open>exact_literals\<close>) and are written as
  they are.\<close>

definition double_literal :: "real \<Rightarrow> real" where
  "double_literal x = round_to 53 x"

definition float_of_double :: "real \<Rightarrow> real" where
  "float_of_double x = round_to 24 x"

section \<open>ServoController (ServoController.h)\<close>

record ServoController =
  servoMin :: int
  servoMax :: int
  angles :: "real list"
  speeds :: "real list"
  sensitivity :: "real list"
  maxSpeed :: real
  accel :: real
  decel :: real

definition numServos :: nat where
  "numServos = 6"

definition ServoController_new :: ServoController where
  "ServoController_new =
     \<lparr>servoMin = 150, servoMax = 600,
      angles = replicate numServos 90, speeds = replicate numServos 0,
      sensitivity = replicate numServos 1,
      maxSpeed = 2,
      accel = float_of_double (double_literal (5 / 100)),
      decel = float_of_double (double_literal (5 / 100))\<rparr>"

definition ServoController_emergencyStop :: "ServoController \<Rightarrow> ServoController" where
  "ServoController_emergencyStop c =
     c\<lparr>speeds := fold (\<lambda>i sp. sp[i := 0]) [0..<numServos] (speeds c)\<rparr>"

text \<open>In \<open>isActive\<close> the speed is widened to \<^verbatim>\<open>double\<close>, which is exact, and compared
  with the literal.\<close>

definition ServoController_isActive :: "ServoController \<Rightarrow> bool" where
  "ServoController_isActive c =
     list_ex (\<lambda>i. \<bar>speeds c ! i\<bar> > double_literal (1 / 100)) [0..<numServos]"

text \<open>The Arduino core function \<^verbatim>\<open>map\<close> (integer arithmetic, division truncating
  towards zero) and the conversion \<^verbatim>\<open>(int)angles[i]\<close>.\<close>

definition c_div :: "int \<Rightarrow> int \<Rightarrow> int" where
  "c_div a b = (if (a < 0) = (b < 0) then \<bar>a\<bar> div \<bar>b\<bar> else - (\<bar>a\<bar> div \<bar>b\<bar>))"

definition arduino_map :: "int \<Rightarrow> int \<Rightarrow> int \<Rightarrow> int \<Rightarrow> int \<Rightarrow> int" where
  "arduino_map x in_min in_max out_min out_max =
     c_div ((x - in_min) * (out_max - out_min)) (in_max - in_min) + out_min"

definition to_int :: "real \<Rightarrow> int" where
  "to_int r = (if r \<ge> 0 then \<lfloor>r\<rfloor> else \<lceil>r\<rceil>)"

definition angleToPulse :: "ServoController \<Rightarrow> int \<Rightarrow> int" where
  "angleToPulse c angle = arduino_map angle 0 180 (servoMin c) (servoMax c)"

text \<open>The speed ramp of one joint (the two lines under "Ramp logic"); the sum and the
  difference are \<^verbatim>\<open>float\<close> operations.\<close>

definition rampSpeed :: "real \<Rightarrow> real \<Rightarrow> real \<Rightarrow> real \<Rightarrow> real" where
  "rampSpeed up down targetSpeed speed =
     (if speed < targetSpeed then min (fadd speed up) targetSpeed
      else if speed > targetSpeed then max (fsub speed down) targetSpeed
      else speed)"

text \<open>One iteration of the loop of \<open>ServoController::update\<close>, for joint \<open>i\<close>.\<close>

definition updateJoint :: "char list \<Rightarrow> nat \<Rightarrow> ServoController \<Rightarrow> ServoController" where
  "updateJoint commands i c =
     (let targetSpeed =
            (if commands ! i = CHR ''L'' then fmul (- maxSpeed c) (sensitivity c ! i)
             else if commands ! i = CHR ''R'' then fmul (maxSpeed c) (sensitivity c ! i)
             else 0);
          speed = rampSpeed (accel c) (decel c) targetSpeed (speeds c ! i);
          angle = constrain (fadd (angles c ! i) speed) 0 180
      in c\<lparr>speeds := (speeds c)[i := speed], angles := (angles c)[i := angle]\<rparr>)"

text \<open>The pulse written for joint \<open>i\<close> at the end of its iteration.\<close>

definition pulseOf :: "ServoController \<Rightarrow> nat \<Rightarrow> int" where
  "pulseOf c i = angleToPulse c (to_int (angles c ! i))"

definition ServoController_update :: "char list \<Rightarrow> ServoController \<Rightarrow> ServoController" where
  "ServoController_update commands c = fold (updateJoint commands) [0..<numServos] c"

section \<open>LedController (LedSystems.h)\<close>

definition PIN_SCANNER :: "int list" where
  "PIN_SCANNER = [10, 11]"

definition PIN_FAST_BLINK :: int where
  "PIN_FAST_BLINK = 24"

definition PIN_SEQUENCE :: int where
  "PIN_SEQUENCE = 9"

definition PIN_HEARTBEAT :: int where
  "PIN_HEARTBEAT = 13"

definition SCAN_SPEED :: int where
  "SCAN_SPEED = 100"

definition PIN24_SPEED :: int where
  "PIN24_SPEED = 50"

definition HEARTBEAT_SPEED :: int where
  "HEARTBEAT_SPEED = 500"

record LedController =
  lastScanTime :: millis
  scannerIdx :: int
  scannerDir :: int
  scannerStep :: int
  lastBeaconTime :: millis
  beaconStep :: int
  s24 :: bool
  t24 :: millis
  s13 :: bool
  t13 :: millis
  sSingle :: bool
  tSingle :: millis
  pinLevel :: "int \<Rightarrow> bool"

definition LedController_new :: LedController where
  "LedController_new =
     \<lparr>lastScanTime = 0, scannerIdx = 0, scannerDir = 1, scannerStep = 0,
      lastBeaconTime = 0, beaconStep = 0,
      s24 = False, t24 = 0, s13 = False, t13 = 0, sSingle = False, tSingle = 0,
      pinLevel = (\<lambda>_. False)\<rparr>"

definition digitalWrite :: "int \<Rightarrow> bool \<Rightarrow> LedController \<Rightarrow> LedController" where
  "digitalWrite pin level l = l\<lparr>pinLevel := (pinLevel l)(pin := level)\<rparr>"

text \<open>\<^verbatim>\<open>PIN_SCANNER[i]\<close>: an index outside the two-element table is an out-of-bounds
  read, the value \<open>None\<close>.\<close>

definition scannerPin :: "int \<Rightarrow> int option" where
  "scannerPin i = (if 0 \<le> i \<and> i < int (length PIN_SCANNER) then Some (PIN_SCANNER ! nat i) else None)"

text \<open>\<open>runSimpleBlinker\<close> takes the blinker's state and timestamp by reference; the
  model returns both with the latch.\<close>

definition runSimpleBlinker ::
  "int \<Rightarrow> int \<Rightarrow> millis \<Rightarrow> bool \<Rightarrow> millis \<Rightarrow> (int \<Rightarrow> bool) \<Rightarrow> bool \<times> millis \<times> (int \<Rightarrow> bool)" where
  "runSimpleBlinker pin speed now state lastTime pins =
     (if now - lastTime \<ge> word_of_int speed
      then (\<not> state, now, pins(pin := \<not> state))
      else (state, lastTime, pins))"

definition runBeaconLogic :: "millis \<Rightarrow> bool \<Rightarrow> LedController \<Rightarrow> LedController" where
  "runBeaconLogic now isConnected l =
     (if \<not> isConnected then (digitalWrite PIN_SEQUENCE True l)\<lparr>beaconStep := 1\<rparr>
      else if now - lastBeaconTime l \<ge> 100
      then (let step = (if beaconStep l = 0 then 1 else 0)
            in digitalWrite PIN_SEQUENCE (step \<noteq> 0) (l\<lparr>lastBeaconTime := now, beaconStep := step\<rparr>))
      else l)"

definition runScannerLogic :: "millis \<Rightarrow> bool \<Rightarrow> bool \<Rightarrow> LedController \<Rightarrow> LedController option" where
  "runScannerLogic now leftActive rightActive l =
     (if \<not> leftActive \<and> \<not> rightActive then
        do {
          p0 \<leftarrow> scannerPin 0;
          p1 \<leftarrow> scannerPin 1;
          Some (digitalWrite p1 False (digitalWrite p0 False l))
        }
      else if leftActive \<and> rightActive then
        (if now - lastScanTime l < word_of_int SCAN_SPEED then Some l
         else
           (let l1 = l\<lparr>lastScanTime := now\<rparr> in
            if scannerStep l1 = 0 \<or> scannerStep l1 = 2 then
              do {
                p \<leftarrow> scannerPin (scannerIdx l1);
                Some ((digitalWrite p True l1)\<lparr>scannerStep := scannerStep l1 + 1\<rparr>)
              }
            else if scannerStep l1 = 1 then
              do {
                p \<leftarrow> scannerPin (scannerIdx l1);
                Some ((digitalWrite p False l1)\<lparr>scannerStep := scannerStep l1 + 1\<rparr>)
              }
            else if scannerStep l1 = 3 then
              do {
                p \<leftarrow> scannerPin (scannerIdx l1);
                let l2 = digitalWrite p False l1;
                let next = scannerIdx l2 + scannerDir l2;
                let l3 = (if next \<ge> 2 then l2\<lparr>scannerDir := - 1, scannerIdx := 0\<rparr>
                          else if next < 0 then l2\<lparr>scannerDir := 1, scannerIdx := 1\<rparr>
                          else l2\<lparr>scannerIdx := next\<rparr>);
                q \<leftarrow> scannerPin (scannerIdx l3);
                Some ((digitalWrite q True l3)\<lparr>scannerStep := 0\<rparr>)
              }
            else Some (l1\<lparr>scannerStep := scannerStep l1 + 1\<rparr>)))
      else if leftActive \<and> \<not> rightActive then
        do {
          p1 \<leftarrow> scannerPin 1;
          p0 \<leftarrow> scannerPin 0;
          let l1 = digitalWrite p1 False l;
          Some (case runSimpleBlinker p0 SCAN_SPEED now (sSingle l1) (tSingle l1) (pinLevel l1) of
                  (s, t, pins) \<Rightarrow> l1\<lparr>sSingle := s, tSingle := t, pinLevel := pins\<rparr>)
        }
      else
        do {
          p0 \<leftarrow> scannerPin 0;
          p1 \<leftarrow> scannerPin 1;
          let l1 = digitalWrite p0 False l;
          Some (case runSimpleBlinker p1 SCAN_SPEED now (sSingle l1) (tSingle l1) (pinLevel l1) of
                  (s, t, pins) \<Rightarrow> l1\<lparr>sSingle := s, tSingle := t, pinLevel := pins\<rparr>)
        })"

text \<open>\<open>LedController::update\<close>; \<open>currentMillis\<close> is the reading of \<^verbatim>\<open>millis()\<close> it takes.\<close>

definition LedController_update ::
  "millis \<Rightarrow> bool \<Rightarrow> bool \<Rightarrow> bool \<Rightarrow> bool \<Rightarrow> LedController \<Rightarrow> LedController option" where
  "LedController_update currentMillis leftMotorActive rightMotorActive servoActive commsActive l =
     (let l1 = (case runSimpleBlinker PIN_HEARTBEAT HEARTBEAT_SPEED currentMillis (s13 l) (t13 l) (pinLevel l) of
                  (s, t, pins) \<Rightarrow> l\<lparr>s13 := s, t13 := t, pinLevel := pins\<rparr>);
          l2 = (if commsActive
                then (case runSimpleBlinker PIN_FAST_BLINK PIN24_SPEED currentMillis (s24 l1) (t24 l1) (pinLevel l1) of
                        (s, t, pins) \<Rightarrow> l1\<lparr>s24 := s, t24 := t, pinLevel := pins\<rparr>)
                else digitalWrite PIN_FAST_BLINK False l1)
      in do {
        l3 \<leftarrow> runScannerLogic currentMillis leftMotorActive rightMotorActive l2;
        Some (runBeaconLogic currentMillis servoActive l3)
      })"

section \<open>C library helpers used by the command parser\<close>

text \<open>
  \<^verbatim>\<open>strtok\<close> and \<^verbatim>\<open>atoi\<close> come from the C library, not from the repository. They
  are modelled on the command buffer itself: a C string is the run of bytes from a
  position up to the first NUL.
\<close>

definition cstr_from :: "char list \<Rightarrow> nat \<Rightarrow> char list" where
  "cstr_from buf p = takeWhile (\<lambda>c. c \<noteq> NUL) (drop p buf)"

text \<open>
  \<open>strtok buf p\<close> scans from position \<open>p\<close> with the delimiter set \<^verbatim>\<open>","\<close>: it skips
  leading delimiters, returns \<open>None\<close> (the NULL pointer) when the string ends there, and
  otherwise yields the token, the position saved for the next call, and the buffer with
  the delimiter that ended the token overwritten by NUL.
\<close>

definition strtok :: "char list \<Rightarrow> nat \<Rightarrow> (char list \<times> nat \<times> char list) option" where
  "strtok buf p =
     (let s = cstr_from buf p;
          k = length (takeWhile (\<lambda>c. c = CHR '','') s);
          token = takeWhile (\<lambda>c. c \<noteq> CHR '','') (drop k s);
          e = p + k + length token
      in if token = [] then None
         else if k + length token < length s then Some (token, e + 1, buf[e := NUL])
         else Some (token, e, buf))"

definition isspace :: "char \<Rightarrow> bool" where
  "isspace c = (c = CHR 0x20 \<or> c = CHR 0x09 \<or> c = CHR 0x0A \<or> c = CHR 0x0B \<or> c = CHR 0x0C \<or> c = CHR 0x0D)"

definition isdigit :: "char \<Rightarrow> bool" where
  "isdigit c = (48 \<le> (of_char c :: nat) \<and> (of_char c :: nat) \<le> 57)"

definition digits_value :: "char list \<Rightarrow> int" where
  "digits_value ds = foldl (\<lambda>acc d. acc * 10 + (int (of_char d) - 48)) 0 ds"

text \<open>\<^verbatim>\<open>atoi\<close> as newlib implements it (through \<^verbatim>\<open>strtol\<close>): optional white space, an
  optional sign, decimal digits; a value outside the 32-bit range saturates.\<close>

definition atoi :: "char list \<Rightarrow> int" where
  "atoi s =
     (let s1 = dropWhile isspace s;
          neg = (s1 \<noteq> [] \<and> hd s1 = CHR ''-'');
          s2 = (if s1 \<noteq> [] \<and> (hd s1 = CHR ''-'' \<or> hd s1 = CHR ''+'') then tl s1 else s1);
          v = digits_value (takeWhile isdigit s2)
      in if neg then max (- 2147483648) (- v) else min 2147483647 v)"

section \<open>Global state (GlobalVariables.cpp, SystemCodes.h)\<close>

datatype SystemCode =
    SYS_BOOT_START
  | SYS_BOOT_COMPLETE
  | ACT_INIT_START
  | ACT_MOTORS_READY
  | ACT_SERVOS_READY
  | SAFE_FAILSAFE_TRIGGER
  | SAFE_FAILSAFE_CLEAR
  | ERR_I2C_HANG
  | ERR_WATCHDOG_RESET

fun code_value :: "SystemCode \<Rightarrow> nat" where
  "code_value SYS_BOOT_START = 1000"
| "code_value SYS_BOOT_COMPLETE = 1001"
| "code_value ACT_INIT_START = 2000"
| "code_value ACT_MOTORS_READY = 2001"
| "code_value ACT_SERVOS_READY = 2002"
| "code_value SAFE_FAILSAFE_TRIGGER = 4005"
| "code_value SAFE_FAILSAFE_CLEAR = 4006"
| "code_value ERR_I2C_HANG = 5005"
| "code_value ERR_WATCHDOG_RESET = 5007"

definition MAX_CMD_LEN :: int where
  "MAX_CMD_LEN = 32"

definition MOTOR_INTERVAL :: millis where
  "MOTOR_INTERVAL = 10"

definition SERVO_INTERVAL :: millis where
  "SERVO_INTERVAL = 20"

text \<open>\<open>events\<close> lists the codes handed to \<open>transmitCode\<close>, oldest first.\<close>

record Globals =
  isSDReady :: bool
  serialCommunicationFlag :: bool
  isLeftMotorActive :: bool
  isRightMotorActive :: bool
  failsafeTriggered :: bool
  lastCommandTime :: millis
  FAILSAFE_TIMEOUT :: millis
  lastMotorTime :: millis
  lastServoTime :: millis
  usbBuffer :: "char list"
  usbIndex :: int
  radioBuffer :: "char list"
  radioIndex :: int
  servoCommands :: "char list"
  ledSys :: LedController
  leftMotor :: Motor
  rightMotor :: Motor
  controller :: ServoController
  events :: "SystemCode list"

definition initial_globals :: Globals where
  "initial_globals =
     \<lparr>isSDReady = False, serialCommunicationFlag = False,
      isLeftMotorActive = False, isRightMotorActive = False, failsafeTriggered = False,
      lastCommandTime = 0, FAILSAFE_TIMEOUT = 500, lastMotorTime = 0, lastServoTime = 0,
      usbBuffer = replicate 32 NUL, usbIndex = 0,
      radioBuffer = replicate 32 NUL, radioIndex = 0,
      servoCommands = replicate 6 NUL,
      ledSys = LedController_new,
      leftMotor = Motor_new 2 3 21 20 5,
      rightMotor = Motor_new 5 6 22 23 5,
      controller = ServoController_new,
      events = []\<rparr>"

definition transmitCode :: "SystemCode \<Rightarrow> Globals \<Rightarrow> Globals" where
  "transmitCode code g = g\<lparr>events := events g @ [code]\<rparr>"

section \<open>Command parsing and input framing (CmdCtrl\_Main.ino)\<close>

text \<open>
  \<open>processCommand now cmd g\<close>: \<open>now\<close> is the reading of \<^verbatim>\<open>millis()\<close> in its first
  statement, \<open>cmd\<close> the buffer the pointer refers to. The result carries the buffer
  back, since \<^verbatim>\<open>strtok\<close> writes into it.
\<close>

definition processCommand :: "millis \<Rightarrow> char list \<Rightarrow> Globals \<Rightarrow> char list \<times> Globals" where
  "processCommand now cmd g =
     (let g1 = g\<lparr>lastCommandTime := now\<rparr>;
          g2 = (if failsafeTriggered g1
                then transmitCode SAFE_FAILSAFE_CLEAR (g1\<lparr>failsafeTriggered := False\<rparr>)
                else g1)
      in if cmd ! 0 = CHR ''S'' then
           (let idx = int (of_char (cmd ! 1)) - int (of_char (CHR ''1''));
                dir = cmd ! 2
            in if idx \<ge> 0 \<and> idx < int numServos
               then (cmd, g2\<lparr>servoCommands :=
                       (servoCommands g2)[nat idx := (if dir = CHR ''L'' \<or> dir = CHR ''R'' then dir else NUL)]\<rparr>)
               else (cmd, g2))
         else
           (case strtok cmd 0 of
              None \<Rightarrow> (cmd, g2)
            | Some (token, save, cmd1) \<Rightarrow>
                (let leftVal = atoi token in
                 case strtok cmd1 save of
                   None \<Rightarrow> (cmd1, g2)
                 | Some (token2, save2, cmd2) \<Rightarrow>
                     (let rightVal = atoi token2 in
                      (cmd2, g2\<lparr>leftMotor := Motor_setTarget leftVal (leftMotor g2),
                                rightMotor := Motor_setTarget rightVal (rightMotor g2),
                                isLeftMotorActive := (leftVal \<noteq> 0),
                                isRightMotorActive := (rightVal \<noteq> 0)\<rparr>)))))"

text \<open>A write \<^verbatim>\<open>buffer[i] = c\<close>: outside the array it is a buffer overrun, the value
  \<open>None\<close>.\<close>

definition store :: "char list \<Rightarrow> int \<Rightarrow> char \<Rightarrow> char list option" where
  "store buffer i c = (if 0 \<le> i \<and> i < int (length buffer) then Some (buffer[nat i := c]) else None)"

text \<open>
  An input stream holds the bytes that are available, each paired with the value
  \<^verbatim>\<open>millis()\<close> has while that byte is handled.
\<close>

type_synonym stream = "(char \<times> millis) list"

definition available :: "stream \<Rightarrow> int" where
  "available st = int (length st)"

text \<open>The body of the while loop of \<open>checkInput\<close> for one byte \<open>c\<close>.\<close>

fun checkInput_byte :: "char \<Rightarrow> millis \<Rightarrow> char list \<times> int \<times> Globals \<Rightarrow> (char list \<times> int \<times> Globals) option" where
  "checkInput_byte c now (buffer, index, g) =
     (if c = CHR 0x0A \<or> c = CHR 0x0D then
        (if index > 0 then
           do {
             b \<leftarrow> store buffer index NUL;
             (case processCommand now b g of (b', g') \<Rightarrow> Some (b', 0, g'))
           }
         else Some (buffer, index, g))
      else
        (if index < MAX_CMD_LEN - 1 then
           do {
             b \<leftarrow> store buffer index c;
             Some (b, index + 1, g)
           }
         else Some (buffer, index, g)))"

declare checkInput_byte.simps [simp del]

function checkInput :: "stream \<Rightarrow> char list \<times> int \<times> Globals \<Rightarrow> (stream \<times> char list \<times> int \<times> Globals) option" where
  "checkInput st x =
     (if available st > 0 then
        (case checkInput_byte (fst (hd st)) (snd (hd st)) x of
           None \<Rightarrow> None
         | Some x' \<Rightarrow> checkInput (tl st) x')
      else Some (st, x))"
  by pat_completeness auto
termination
  by (relation "measure (\<lambda>(st, x). length st)") (auto simp: available_def)

declare checkInput.simps [simp del]

section \<open>The control loop (CmdCtrl\_Main.ino)\<close>

text \<open>Step 2 of \<open>loop\<close>, the failsafe check.\<close>

definition failsafeCheck :: "millis \<Rightarrow> Globals \<Rightarrow> Globals" where
  "failsafeCheck now g =
     (if \<not> failsafeTriggered g \<and> now - lastCommandTime g > FAILSAFE_TIMEOUT g then
        transmitCode SAFE_FAILSAFE_TRIGGER
          (g\<lparr>failsafeTriggered := True,
             leftMotor := Motor_emergencyStop (leftMotor g),
             rightMotor := Motor_emergencyStop (rightMotor g),
             controller := ServoController_emergencyStop (controller g),
             isLeftMotorActive := False,
             isRightMotorActive := False,
             servoCommands := fold (\<lambda>i cs. cs[i := NUL]) [0..<6] (servoCommands g)\<rparr>)
      else g)"

definition updateMotors :: "millis \<Rightarrow> Globals \<Rightarrow> Globals" where
  "updateMotors now g =
     (if now - lastMotorTime g \<ge> MOTOR_INTERVAL
      then g\<lparr>lastMotorTime := now,
             leftMotor := Motor_update (leftMotor g),
             rightMotor := Motor_update (rightMotor g)\<rparr>
      else g)"

definition updateServos :: "millis \<Rightarrow> Globals \<Rightarrow> Globals" where
  "updateServos now g =
     (if now - lastServoTime g \<ge> SERVO_INTERVAL
      then g\<lparr>lastServoTime := now,
             controller := ServoController_update (servoCommands g) (controller g)\<rparr>
      else g)"

text \<open>
  Step 1 of \<open>loop\<close>: both ports are drained, USB first. \<open>checkInput\<close> receives the
  buffer and the index by reference, so its results are written back to the globals.
\<close>

definition readInputs :: "stream \<Rightarrow> stream \<Rightarrow> Globals \<Rightarrow> Globals option" where
  "readInputs usb radio g =
     do {
       (usb', ub, ui, g1) \<leftarrow> checkInput usb (usbBuffer g, usbIndex g, g);
       let g1 = g1\<lparr>usbBuffer := ub, usbIndex := ui\<rparr>;
       (radio', rb, ri, g2) \<leftarrow> checkInput radio (radioBuffer g1, radioIndex g1, g1);
       Some (g2\<lparr>radioBuffer := rb, radioIndex := ri\<rparr>)
     }"

text \<open>Step 5 of \<open>loop\<close>; \<open>ledNow\<close> is the reading of \<^verbatim>\<open>millis()\<close> taken inside
  \<open>LedController::update\<close>.\<close>

definition updateLeds :: "millis \<Rightarrow> Globals \<Rightarrow> Globals option" where
  "updateLeds ledNow g =
     do {
       l \<leftarrow> LedController_update ledNow (isLeftMotorActive g) (isRightMotorActive g)
              (ServoController_isActive (controller g)) (serialCommunicationFlag g) (ledSys g);
       Some (g\<lparr>ledSys := l\<rparr>)
     }"

text \<open>
  One pass of \<open>loop\<close>. \<open>now\<close> is the reading of \<^verbatim>\<open>millis()\<close> at its top, \<open>usb\<close> and
  \<open>radio\<close> are what the two serial ports hold.
\<close>

definition loop :: "millis \<Rightarrow> stream \<Rightarrow> stream \<Rightarrow> millis \<Rightarrow> Globals \<Rightarrow> Globals option" where
  "loop now usb radio ledNow g =
     do {
       g2 \<leftarrow> readInputs usb radio g;
       updateLeds ledNow (updateServos now (updateMotors now (failsafeCheck now g2)))
     }"

text \<open>
  \<open>setup\<close> of the sketch: \<open>sdOk\<close> is the result of \<^verbatim>\<open>sd.begin\<close>, \<open>wdtReset\<close> the watchdog bit of the
  reset cause, \<open>t0\<close> the reading of \<^verbatim>\<open>millis()\<close> in its last statement.
\<close>

definition setup_node :: "bool \<Rightarrow> bool \<Rightarrow> millis \<Rightarrow> Globals \<Rightarrow> Globals" where
  "setup_node sdOk wdtReset t0 g =
     (let g1 = g\<lparr>serialCommunicationFlag := True, isSDReady := sdOk\<rparr>;
          g2 = transmitCode (if wdtReset then ERR_WATCHDOG_RESET else SYS_BOOT_START) g1;
          g3 = transmitCode ACT_INIT_START g2;
          g4 = transmitCode ACT_MOTORS_READY
                 (g3\<lparr>leftMotor := Motor_begin (leftMotor g3), rightMotor := Motor_begin (rightMotor g3)\<rparr>);
          g5 = transmitCode ACT_SERVOS_READY g4;
          g6 = transmitCode SYS_BOOT_COMPLETE g5
      in g6\<lparr>lastCommandTime := t0\<rparr>)"

text \<open>The firmware runs \<open>loop\<close> forever; a run is the list of what each pass reads.\<close>

type_synonym pass = "millis \<times> stream \<times> stream \<times> millis"

fun run :: "pass list \<Rightarrow> Globals \<Rightarrow> Globals option" where
  "run [] g = Some g"
| "run ((now, usb, radio, ledNow) # ps) g =
     (case loop now usb radio ledNow g of None \<Rightarrow> None | Some g' \<Rightarrow> run ps g')"

section \<open>Invariants and call sequences used in the statements\<close>

text \<open>The ranges \<open>setTarget\<close>, the constructor and \<open>emergencyStop\<close> keep a motor in.\<close>

definition Motor_ok :: "Motor \<Rightarrow> bool" where
  "Motor_ok m = (0 \<le> pwmStep m \<and> pwmStep m \<le> 2147483392 \<and> - 255 \<le> targetPWM m \<and> targetPWM m \<le> 255
     \<and> - 255 \<le> currentPWM m \<and> currentPWM m \<le> 255)"

text \<open>A sequence of calls of \<open>LedController::update\<close>, each with the time it reads and
  its four arguments.\<close>

type_synonym led_call = "millis \<times> bool \<times> bool \<times> bool \<times> bool"

fun LedController_run :: "led_call list \<Rightarrow> LedController \<Rightarrow> LedController option" where
  "LedController_run [] l = Some l"
| "LedController_run ((currentMillis, leftMotorActive, rightMotorActive, servoActive, commsActive) # calls) l =
     (case LedController_update currentMillis leftMotorActive rightMotorActive servoActive commsActive l of
        None \<Rightarrow> None
      | Some l' \<Rightarrow> LedController_run calls l')"

definition scanner_ok :: "LedController \<Rightarrow> bool" where
  "scanner_ok l = ((scannerIdx l = 0 \<or> scannerIdx l = 1) \<and> (scannerDir l = - 1 \<or> scannerDir l = 1))"

text \<open>The first statements of \<open>processCommand\<close>, which every call runs: the timer is
  reset and a tripped failsafe is cleared with its event.\<close>

definition cleared :: "millis \<Rightarrow> Globals \<Rightarrow> Globals" where
  "cleared now g =
     (if failsafeTriggered g
      then transmitCode SAFE_FAILSAFE_CLEAR (g\<lparr>lastCommandTime := now, failsafeTriggered := False\<rparr>)
      else g\<lparr>lastCommandTime := now\<rparr>)"

text \<open>A line buffer and its fill index as \<open>checkInput\<close> keeps them.\<close>

definition buffer_ok :: "char list \<Rightarrow> int \<Rightarrow> bool" where
  "buffer_ok buffer index = (int (length buffer) = MAX_CMD_LEN \<and> 0 \<le> index \<and> index \<le> MAX_CMD_LEN - 1)"

text \<open>
  What \<open>checkInput\<close> hands to \<open>processCommand\<close> while it drains a stream: the time of
  each dispatch with the buffer passed, in order.
\<close>

fun dispatched :: "stream \<Rightarrow> char list \<times> int \<times> Globals \<Rightarrow> (millis \<times> char list) list" where
  "dispatched [] x = []"
| "dispatched ((c, now) # rest) (buffer, index, g) =
     (if (c = CHR 0x0A \<or> c = CHR 0x0D) \<and> index > 0 then [(now, buffer[nat index := NUL])] else [])
     @ (case checkInput_byte c now (buffer, index, g) of
          None \<Rightarrow> []
        | Some x' \<Rightarrow> dispatched rest x')"

text \<open>The fill index after a stream, and the times of the dispatches in it; both depend
  on the bytes and the starting index only.\<close>

fun index_after :: "stream \<Rightarrow> int \<Rightarrow> int" where
  "index_after [] index = index"
| "index_after ((c, now) # rest) index =
     index_after rest
       (if c = CHR 0x0A \<or> c = CHR 0x0D then (if index > 0 then 0 else index)
        else if index < MAX_CMD_LEN - 1 then index + 1 else index)"

fun dispatch_times :: "stream \<Rightarrow> int \<Rightarrow> millis list" where
  "dispatch_times [] index = []"
| "dispatch_times ((c, now) # rest) index =
     (if c = CHR 0x0A \<or> c = CHR 0x0D
      then (if index > 0 then now # dispatch_times rest 0 else dispatch_times rest index)
      else dispatch_times rest (if index < MAX_CMD_LEN - 1 then index + 1 else index))"

text \<open>Passes of the loop in which no line is dispatched on either port, from the fill
  indices \<open>ui\<close> (USB) and \<open>ri\<close> (radio).\<close>

fun quiet :: "pass list \<Rightarrow> int \<Rightarrow> int \<Rightarrow> bool" where
  "quiet [] ui ri = True"
| "quiet ((now, usb, radio, ledNow) # ps) ui ri =
     (dispatch_times usb ui = [] \<and> dispatch_times radio ri = []
      \<and> quiet ps (index_after usb ui) (index_after radio ri))"

text \<open>The array sizes and index ranges the firmware maintains.\<close>

definition state_ok :: "Globals \<Rightarrow> bool" where
  "state_ok g =
     (buffer_ok (usbBuffer g) (usbIndex g) \<and> buffer_ok (radioBuffer g) (radioIndex g)
      \<and> length (servoCommands g) = numServos
      \<and> length (speeds (controller g)) = numServos
      \<and> length (angles (controller g)) = numServos
      \<and> scanner_ok (ledSys g))"

text \<open>All actuation at zero: motor targets and currents, joint speeds, pending joint
  commands.\<close>

definition halted :: "Globals \<Rightarrow> bool" where
  "halted g =
     (targetPWM (leftMotor g) = 0 \<and> currentPWM (leftMotor g) = 0
      \<and> targetPWM (rightMotor g) = 0 \<and> currentPWM (rightMotor g) = 0
      \<and> speeds (controller g) = replicate numServos 0
      \<and> servoCommands g = replicate numServos NUL)"

text \<open>The actuator state: both motors, the servo controller, the pending joint commands
  and the two motor activity flags.\<close>

definition actuators :: "Globals \<Rightarrow> Motor \<times> Motor \<times> ServoController \<times> char list \<times> bool \<times> bool" where
  "actuators g =
     (leftMotor g, rightMotor g, controller g, servoCommands g, isLeftMotorActive g, isRightMotorActive g)"

text \<open>The lines \<open>processCommand\<close> drops: a line starting with \<open>S\<close> whose index
  character is not one of \<open>1\<close> to \<open>6\<close>, and any other line for which the first or the
  second \<^verbatim>\<open>strtok\<close> returns NULL.\<close>

definition rejected :: "char list \<Rightarrow> bool" where
  "rejected cmd =
     (if cmd ! 0 = CHR ''S''
      then \<not> (49 \<le> (of_char (cmd ! 1) :: nat) \<and> (of_char (cmd ! 1) :: nat) \<le> 54)
      else (case strtok cmd 0 of
              None \<Rightarrow> True
            | Some (token, save, cmd1) \<Rightarrow> strtok cmd1 save = None))"

text \<open>The lines dispatched in one pass of the loop, on the USB port and then on the
  radio port, and the runs in which every dispatched line is one that \<open>processCommand\<close>
  drops.\<close>

definition pass_lines :: "stream \<Rightarrow> stream \<Rightarrow> Globals \<Rightarrow> (millis \<times> char list) list" where
  "pass_lines usb radio g =
     dispatched usb (usbBuffer g, usbIndex g, g)
     @ (case checkInput usb (usbBuffer g, usbIndex g, g) of
          None \<Rightarrow> []
        | Some (usb', ub, ui, g1) \<Rightarrow>
            dispatched radio (radioBuffer g1, radioIndex g1, g1\<lparr>usbBuffer := ub, usbIndex := ui\<rparr>))"

fun only_rejected :: "pass list \<Rightarrow> Globals \<Rightarrow> bool" where
  "only_rejected [] g = True"
| "only_rejected ((now, usb, radio, ledNow) # ps) g =
     (list_all (\<lambda>d. rejected (snd d)) (pass_lines usb radio g)
      \<and> (case loop now usb radio ledNow g of
            None \<Rightarrow> False
          | Some g' \<Rightarrow> only_rejected ps g'))"

definition flags_ok :: "Globals \<Rightarrow> bool" where
  "flags_ok g =
     (isLeftMotorActive g = (targetPWM (leftMotor g) \<noteq> 0)
      \<and> isRightMotorActive g = (targetPWM (rightMotor g) \<noteq> 0))"

text \<open>A state of the running node, used as an example: both motors and joint 2
  commanded, two passes of the loop done.\<close>

definition driving :: Globals where
  "driving =
     (case run [(10, [(CHR ''1'', 5), (CHR ''0'', 5), (CHR ''0'', 5), (CHR '','', 5),
                      (CHR ''-'', 5), (CHR ''4'', 5), (CHR ''0'', 5), (CHR 0x0A, 6),
                      (CHR ''S'', 7), (CHR ''2'', 7), (CHR ''R'', 7), (CHR 0x0A, 8)], [], 10),
                (20, [], [], 20)]
               (setup_node True False 0 initial_globals) of
        Some g \<Rightarrow> g
      | None \<Rightarrow> initial_globals)"

section \<open>Motor: the ramp\<close>

lemma wrap32_id: "in_int32 x \<Longrightarrow> wrap32 x = x"
  by (simp add: wrap32_def in_int32_def)

lemma pwmStep_Motor_do [simp]: "pwmStep (Motor_do call m) = pwmStep m"
  by (cases call) (simp_all add: Motor_setTarget_def Motor_update_def Motor_emergencyStop_def)

lemma pwmStep_fold_Motor_do [simp]: "pwmStep (fold Motor_do calls m) = pwmStep m"
  by (induction calls arbitrary: m) simp_all

text \<open>Where the current value is in range and both \<open>target + step\<close> and \<open>target - step\<close>
  fit 32 bits, no sum of \<open>update\<close> wraps.\<close>

lemma Motor_update_exact:
  assumes "0 \<le> pwmStep m" and "in_int32 (currentPWM m)"
    and "in_int32 (targetPWM m + pwmStep m)" and "in_int32 (targetPWM m - pwmStep m)"
  shows "Motor_update m =
     m\<lparr>currentPWM := (if currentPWM m < targetPWM m then min (currentPWM m + pwmStep m) (targetPWM m)
                       else if currentPWM m > targetPWM m then max (currentPWM m - pwmStep m) (targetPWM m)
                       else currentPWM m)\<rparr>"
proof -
  have up: "currentPWM m < targetPWM m \<Longrightarrow> wrap32 (currentPWM m + pwmStep m) = currentPWM m + pwmStep m"
    using assms by (intro wrap32_id) (simp add: in_int32_def)
  have down: "currentPWM m > targetPWM m \<Longrightarrow> wrap32 (currentPWM m - pwmStep m) = currentPWM m - pwmStep m"
    using assms by (intro wrap32_id) (simp add: in_int32_def)
  show ?thesis using up down by (simp add: Motor_update_def)
qed

lemma Motor_ok_exact:
  assumes "Motor_ok m"
  shows "0 \<le> pwmStep m" "in_int32 (currentPWM m)"
    "in_int32 (targetPWM m + pwmStep m)" "in_int32 (targetPWM m - pwmStep m)"
  using assms by (simp_all add: Motor_ok_def in_int32_def)


lemma Motor_ok_do: "Motor_ok m \<Longrightarrow> Motor_ok (Motor_do call m)"
proof (cases call)
  case (SetTarget pwm)
  assume "Motor_ok m"
  then show ?thesis using SetTarget by (auto simp: Motor_ok_def Motor_setTarget_def constrain_def)
next
  case Update
  assume ok: "Motor_ok m"
  then show ?thesis
    using Update by (auto simp: Motor_update_exact [OF Motor_ok_exact [OF ok]] Motor_ok_def)
next
  case EmergencyStop
  assume "Motor_ok m"
  then show ?thesis using EmergencyStop by (auto simp: Motor_ok_def Motor_emergencyStop_def)
qed

lemma Motor_ok_fold: "Motor_ok m \<Longrightarrow> Motor_ok (fold Motor_do calls m)"
  by (induction calls arbitrary: m) (simp_all add: Motor_ok_do)

lemma Motor_ok_new: "0 \<le> step \<Longrightarrow> step \<le> 2147483392 \<Longrightarrow> Motor_ok (Motor_new rp lp re le step)"
  by (simp add: Motor_ok_def Motor_new_def)




text \<open>On every motor built with a step in that range, the sums and differences \<open>update\<close>
  forms, and the negation passed to analogWrite, fit 32 bits, and both duty cycles lie in
  [0, 255].\<close>

lemma Motor_update_no_overflow:
  assumes "0 \<le> step" "step \<le> 2147483392" "m = fold Motor_do calls (Motor_new rp lp re le step)"
  shows "in_int32 (currentPWM m + pwmStep m) \<and> in_int32 (currentPWM m - pwmStep m)
     \<and> in_int32 (- currentPWM m)"
proof -
  have "Motor_ok m" using assms by (simp add: Motor_ok_fold Motor_ok_new)
  then show ?thesis by (simp add: Motor_ok_def in_int32_def)
qed

lemma Motor_duty_range:
  assumes "0 \<le> step" "step \<le> 2147483392" "m = fold Motor_do calls (Motor_new rp lp re le step)"
  shows "0 \<le> fst (Motor_duty m) \<and> fst (Motor_duty m) \<le> 255
       \<and> 0 \<le> snd (Motor_duty m) \<and> snd (Motor_duty m) \<le> 255"
proof -
  have ok: "Motor_ok m" using assms by (simp add: Motor_ok_fold Motor_ok_new)
  then have "in_int32 (- currentPWM m)" by (simp add: Motor_ok_def in_int32_def)
  then have "wrap32 (- currentPWM m) = - currentPWM m" by (rule wrap32_id)
  then show ?thesis using ok by (simp add: Motor_ok_def Motor_duty_def)
qed


section \<open>Floating-point arithmetic: exponent and rounding error\<close>








lemma exact_literals:
  "float_of_double (double_literal 2) = 2" "float_of_double (double_literal 1) = 1"
  "round_to 24 90 = 90" "round_to 24 180 = 180"
  "float_of_double (double_literal (5 / 100)) = 13421773 / 268435456"
  "double_literal (1 / 100) = 5764607523034235 / 576460752303423488"
  by code_simp+

section \<open>The ramps: reaching the target\<close>














section \<open>ServoController: the angle clamp\<close>

lemma updateJoint_length [simp]:
  "length (angles (updateJoint cmds i c)) = length (angles c)"
  "length (speeds (updateJoint cmds i c)) = length (speeds c)"
  by (simp_all add: updateJoint_def Let_def)

lemma constrain_range: "low \<le> high \<Longrightarrow> low \<le> constrain x low high \<and> constrain x low high \<le> high"
  by (auto simp: constrain_def)

lemma updateJoint_angle_same:
  "i < length (angles c) \<Longrightarrow> 0 \<le> angles (updateJoint cmds i c) ! i \<and> angles (updateJoint cmds i c) ! i \<le> 180"
  using constrain_range [of "0::real" 180] by (simp add: updateJoint_def Let_def)

lemma updateJoint_angle_other:
  "j \<noteq> i \<Longrightarrow> angles (updateJoint cmds i c) ! j = angles c ! j"
  by (simp add: updateJoint_def Let_def)

lemma fold_updateJoint_angles:
  assumes "\<forall>i\<in>set js. i < length (angles c)"
    and "\<forall>j\<in>S. 0 \<le> angles c ! j \<and> angles c ! j \<le> 180"
  shows "length (angles (fold (updateJoint cmds) js c)) = length (angles c)
       \<and> (\<forall>j\<in>S \<union> set js. 0 \<le> angles (fold (updateJoint cmds) js c) ! j
                              \<and> angles (fold (updateJoint cmds) js c) ! j \<le> 180)"
  using assms
proof (induction js arbitrary: c S)
  case Nil
  then show ?case by simp
next
  case (Cons i js)
  let ?c = "updateJoint cmds i c"
  have 1: "\<forall>k\<in>set js. k < length (angles ?c)" using Cons.prems(1) by simp
  have 2: "\<forall>j\<in>insert i S. 0 \<le> angles ?c ! j \<and> angles ?c ! j \<le> 180"
  proof
    fix j assume "j \<in> insert i S"
    show "0 \<le> angles ?c ! j \<and> angles ?c ! j \<le> 180"
    proof (cases "j = i")
      case True
      then show ?thesis using updateJoint_angle_same [of i c cmds] Cons.prems(1) by simp
    next
      case False
      then show ?thesis using \<open>j \<in> insert i S\<close> Cons.prems(2) by (simp add: updateJoint_angle_other)
    qed
  qed
  from Cons.IH [OF 1 2] show ?case by simp
qed

lemma ServoController_update_angles:
  assumes "length (angles c) = numServos"
  shows "length (angles (ServoController_update cmds c)) = numServos
       \<and> (\<forall>i<numServos. 0 \<le> angles (ServoController_update cmds c) ! i
                        \<and> angles (ServoController_update cmds c) ! i \<le> 180)"
proof -
  have "\<forall>i\<in>set [0..<numServos]. i < length (angles c)" using assms by simp
  moreover have "\<forall>j\<in>{}. 0 \<le> angles c ! j \<and> angles c ! j \<le> 180" by simp
  ultimately show ?thesis
    using fold_updateJoint_angles [of "[0..<numServos]" c "{}" cmds] assms
    by (simp add: ServoController_update_def)
qed

text \<open>
  Claim C5. Starting from the constructor's angles of 90, after any sequence of update
  ticks, each with any command array, every joint's angle lies in [0, 180]: the rounded
  sum of angle and speed is clamped in the same iteration, before the pulse is computed
  from it.
\<close>

theorem angle_stays_in_range:
  assumes "c = fold ServoController_update ticks ServoController_new"
  shows "length (angles c) = numServos \<and> (\<forall>i<numServos. 0 \<le> angles c ! i \<and> angles c ! i \<le> 180)"
  using assms
proof (induction ticks arbitrary: c rule: rev_induct)
  case Nil
  then show ?case by (simp add: ServoController_new_def)
next
  case (snoc cmds ticks)
  let ?c = "fold ServoController_update ticks ServoController_new"
  have "length (angles ?c) = numServos" using snoc.IH by simp
  then show ?case using ServoController_update_angles [of ?c cmds] snoc.prems by simp
qed

theorem angle_stays_in_range_witness:
  "(2::nat) < numServos \<and>
   angles (fold ServoController_update [''xxRxxx'', ''xxRxxx''] ServoController_new) ! 2 = 11816141 / 131072 \<and>
   0 \<le> angles (fold ServoController_update [''xxRxxx'', ''xxRxxx''] ServoController_new) ! 2 \<and>
   angles (fold ServoController_update [''xxRxxx'', ''xxRxxx''] ServoController_new) ! 2 \<le> 180"
proof -
  have v: "angles (fold ServoController_update [''xxRxxx'', ''xxRxxx''] ServoController_new) ! 2 = 11816141 / 131072"
    by code_simp
  show ?thesis
    using v angle_stays_in_range [OF refl, of "[''xxRxxx'', ''xxRxxx'']"]
    by (simp add: numServos_def)
qed

text \<open>The pulse computed from a clamped angle lies between \<open>servoMin\<close> and \<open>servoMax\<close>.\<close>

lemma servo_limits_updateJoint [simp]:
  "servoMin (updateJoint cmds i c) = servoMin c" "servoMax (updateJoint cmds i c) = servoMax c"
  by (simp_all add: updateJoint_def Let_def)

lemma servo_limits_fold_updateJoint [simp]:
  "servoMin (fold (updateJoint cmds) js c) = servoMin c"
  "servoMax (fold (updateJoint cmds) js c) = servoMax c"
  by (induction js arbitrary: c) simp_all

lemma pulse_in_range:
  assumes "length (angles c) = numServos" and "servoMin c = 150" and "servoMax c = 600"
    and "i < numServos"
  shows "150 \<le> pulseOf (ServoController_update cmds c) i \<and> pulseOf (ServoController_update cmds c) i \<le> 600"
proof -
  let ?c = "ServoController_update cmds c"
  have a: "0 \<le> angles ?c ! i \<and> angles ?c ! i \<le> 180"
    using ServoController_update_angles [OF assms(1), of cmds] assms(4) by simp
  let ?n = "\<lfloor>angles ?c ! i\<rfloor>"
  have n: "0 \<le> ?n \<and> ?n \<le> 180" using a by (simp add: floor_le_iff le_floor_iff)
  have lim: "servoMin ?c = 150" "servoMax ?c = 600"
    using assms(2,3) by (simp_all add: ServoController_update_def)
  have "pulseOf ?c i = (?n * 450) div 180 + 150"
    using a n by (simp add: pulseOf_def angleToPulse_def arduino_map_def c_div_def to_int_def lim)
  moreover have "0 \<le> (?n * 450) div 180" using n by (simp add: pos_imp_zdiv_nonneg_iff)
  moreover have "(?n * 450) div 180 \<le> 450"
    using zdiv_mono1 [of "?n * 450" 81000 180] n by simp
  ultimately show ?thesis by simp
qed

section \<open>LedController: the scanner index\<close>

lemma scannerPin_simps [simp]: "scannerPin 0 = Some 10" "scannerPin 1 = Some 11"
  by (simp_all add: scannerPin_def PIN_SCANNER_def)

lemma scanner_fields_digitalWrite [simp]:
  "scannerIdx (digitalWrite p v l) = scannerIdx l"
  "scannerDir (digitalWrite p v l) = scannerDir l"
  "scannerStep (digitalWrite p v l) = scannerStep l"
  by (simp_all add: digitalWrite_def)

lemma scanner_ok_digitalWrite [simp]: "scanner_ok (digitalWrite p v l) = scanner_ok l"
  by (simp add: scanner_ok_def)

lemma runScannerLogic_ok:
  assumes "scanner_ok l"
  shows "\<exists>l'. runScannerLogic now leftActive rightActive l = Some l' \<and> scanner_ok l'"
proof -
  have idx: "scannerIdx l = 0 \<or> scannerIdx l = 1" and dir: "scannerDir l = - 1 \<or> scannerDir l = 1"
    using assms by (simp_all add: scanner_ok_def)
  show ?thesis
    using idx dir
    by (auto simp: runScannerLogic_def scanner_ok_def Let_def split: prod.splits)
qed

lemma scanner_ok_runBeaconLogic [simp]: "scanner_ok (runBeaconLogic now b l) = scanner_ok l"
  by (simp add: runBeaconLogic_def scanner_ok_def Let_def digitalWrite_def)

lemma LedController_update_ok:
  assumes "scanner_ok l"
  shows "\<exists>l'. LedController_update t a b c d l = Some l' \<and> scanner_ok l'"
proof -
  let ?l1 = "(case runSimpleBlinker PIN_HEARTBEAT HEARTBEAT_SPEED t (s13 l) (t13 l) (pinLevel l) of
                  (s, t', pins) \<Rightarrow> l\<lparr>s13 := s, t13 := t', pinLevel := pins\<rparr>)"
  let ?l2 = "(if d
                then (case runSimpleBlinker PIN_FAST_BLINK PIN24_SPEED t (s24 ?l1) (t24 ?l1) (pinLevel ?l1) of
                        (s, t', pins) \<Rightarrow> ?l1\<lparr>s24 := s, t24 := t', pinLevel := pins\<rparr>)
                else digitalWrite PIN_FAST_BLINK False ?l1)"
  have "scanner_ok ?l1" using assms by (simp add: scanner_ok_def split: prod.splits)
  then have "scanner_ok ?l2" by (simp add: scanner_ok_def split: prod.splits)
  then obtain l3 where l3: "runScannerLogic t a b ?l2 = Some l3" "scanner_ok l3"
    using runScannerLogic_ok by blast
  then show ?thesis by (simp add: LedController_update_def Let_def)
qed

lemma LedController_run_ok:
  "scanner_ok l \<Longrightarrow> \<exists>l'. LedController_run calls l = Some l' \<and> scanner_ok l'"
proof (induction calls arbitrary: l)
  case Nil
  then show ?case by simp
next
  case (Cons call calls)
  obtain t a b c d where call: "call = (t, a, b, c, d)" by (cases call) auto
  obtain l1 where "LedController_update t a b c d l = Some l1" "scanner_ok l1"
    using LedController_update_ok [OF Cons.prems] by blast
  then show ?case using Cons.IH [of l1] call by simp
qed

text \<open>
  Claim C10. From the initial scanner state (index 0, direction 1), any sequence of
  \<open>update\<close> calls with any times and any boolean arguments runs without an out-of-bounds
  read of \<open>PIN_SCANNER\<close> and ends with \<open>scannerIdx\<close> in {0, 1} and \<open>scannerDir\<close> in
  {-1, 1}; so the next read \<open>PIN_SCANNER[scannerIdx]\<close> is in bounds as well.
\<close>

theorem scanner_index_in_bounds:
  "\<exists>l. LedController_run calls LedController_new = Some l
      \<and> scannerIdx l \<in> {0, 1} \<and> scannerDir l \<in> {- 1, 1}
      \<and> scannerPin (scannerIdx l) \<noteq> None"
proof -
  have "scanner_ok LedController_new" by (simp add: scanner_ok_def LedController_new_def)
  then obtain l where "LedController_run calls LedController_new = Some l" "scanner_ok l"
    using LedController_run_ok by blast
  then show ?thesis by (auto simp: scanner_ok_def)
qed

lemma scanner_run_example: "\<exists>l. LedController_run
          [(100, True, True, False, True), (200, True, True, False, True),
           (300, True, True, False, True), (400, True, True, False, True),
           (500, True, True, False, True), (600, True, True, False, True),
           (700, True, True, False, True), (800, True, True, False, True)] LedController_new = Some l
      \<and> scannerIdx l = 0 \<and> scannerDir l = - 1 \<and> scannerStep l = 0 \<and> pinLevel l 10 \<and> \<not> pinLevel l 11"
  by (simp add: LedController_update_def LedController_new_def runScannerLogic_def runSimpleBlinker_def
        runBeaconLogic_def digitalWrite_def Let_def SCAN_SPEED_def PIN_HEARTBEAT_def HEARTBEAT_SPEED_def
        PIN_FAST_BLINK_def PIN24_SPEED_def PIN_SEQUENCE_def)

theorem scanner_index_in_bounds_witness:
  "\<exists>l. LedController_run
          [(100, True, True, False, True), (200, True, True, False, True),
           (300, True, True, False, True), (400, True, True, False, True),
           (500, True, True, False, True), (600, True, True, False, True),
           (700, True, True, False, True), (800, True, True, False, True)] LedController_new = Some l
      \<and> scannerIdx l = 0 \<and> scannerDir l = - 1
      \<and> scannerIdx l \<in> {0, 1} \<and> scannerDir l \<in> {- 1, 1} \<and> scannerPin (scannerIdx l) \<noteq> None"
  using scanner_run_example scanner_index_in_bounds
          [of "[(100, True, True, False, True), (200, True, True, False, True),
           (300, True, True, False, True), (400, True, True, False, True),
           (500, True, True, False, True), (600, True, True, False, True),
           (700, True, True, False, True), (800, True, True, False, True)]"]
  by auto

section \<open>processCommand: what one dispatched line does\<close>

lemma strtok_length: "strtok buf p = Some (tok, save, buf') \<Longrightarrow> length buf' = length buf"
  by (auto simp: strtok_def Let_def split: if_splits)

lemma processCommand_joint:
  assumes "cmd ! 0 = CHR ''S''" and "49 \<le> (of_char (cmd ! 1) :: nat)" and "(of_char (cmd ! 1) :: nat) \<le> 54"
  shows "processCommand now cmd g =
         (cmd, (cleared now g)\<lparr>servoCommands := (servoCommands g)
            [of_char (cmd ! 1) - 49 := (if cmd ! 2 = CHR ''L'' \<or> cmd ! 2 = CHR ''R'' then cmd ! 2 else NUL)]\<rparr>)"
proof -
  have "nat (int (of_char (cmd ! 1)) - 49) = of_char (cmd ! 1) - 49" by simp
  then show ?thesis
    using assms
    by (simp add: processCommand_def cleared_def transmitCode_def numServos_def Let_def)
qed

lemma processCommand_joint_out_of_range:
  assumes "cmd ! 0 = CHR ''S''" and "\<not> (49 \<le> (of_char (cmd ! 1) :: nat) \<and> (of_char (cmd ! 1) :: nat) \<le> 54)"
  shows "processCommand now cmd g = (cmd, cleared now g)"
  using assms
  by (auto simp: processCommand_def cleared_def transmitCode_def numServos_def Let_def)

lemma processCommand_cases:
  obtains
    (joint) "cmd ! 0 = CHR ''S''" "49 \<le> (of_char (cmd ! 1) :: nat)" "(of_char (cmd ! 1) :: nat) \<le> 54"
      "processCommand now cmd g =
         (cmd, (cleared now g)\<lparr>servoCommands := (servoCommands g)
            [of_char (cmd ! 1) - 49 := (if cmd ! 2 = CHR ''L'' \<or> cmd ! 2 = CHR ''R'' then cmd ! 2 else NUL)]\<rparr>)"
  | (dropped) cmd' where "rejected cmd" "length cmd' = length cmd" "processCommand now cmd g = (cmd', cleared now g)"
  | (motor) cmd' leftVal rightVal where "cmd ! 0 \<noteq> CHR ''S''" "\<not> rejected cmd" "length cmd' = length cmd"
      "processCommand now cmd g =
         (cmd', (cleared now g)\<lparr>leftMotor := Motor_setTarget leftVal (leftMotor g),
                                rightMotor := Motor_setTarget rightVal (rightMotor g),
                                isLeftMotorActive := (leftVal \<noteq> 0),
                                isRightMotorActive := (rightVal \<noteq> 0)\<rparr>)"
proof (cases "cmd ! 0 = CHR ''S''")
  case True
  show ?thesis
  proof (cases "49 \<le> (of_char (cmd ! 1) :: nat) \<and> (of_char (cmd ! 1) :: nat) \<le> 54")
    case in_range: True
    then show ?thesis using joint True processCommand_joint [OF True, of now g] by blast
  next
    case False
    have "rejected cmd" using True False by (simp add: rejected_def)
    then show ?thesis using dropped processCommand_joint_out_of_range [OF True False, of now g] by blast
  qed
next
  case False
  show ?thesis
  proof (cases "strtok cmd 0")
    case None
    then have "processCommand now cmd g = (cmd, cleared now g)"
      using False by (simp add: processCommand_def cleared_def Let_def)
    moreover have "rejected cmd" using False None by (simp add: rejected_def)
    ultimately show ?thesis using dropped by blast
  next
    case (Some r)
    then obtain token save cmd1 where r: "strtok cmd 0 = Some (token, save, cmd1)" by (cases r) auto
    have l1: "length cmd1 = length cmd" using strtok_length [OF r] .
    show ?thesis
    proof (cases "strtok cmd1 save")
      case None
      then have "processCommand now cmd g = (cmd1, cleared now g)"
        using False r by (simp add: processCommand_def cleared_def Let_def)
      moreover have "rejected cmd" using False r None by (simp add: rejected_def)
      ultimately show ?thesis using dropped l1 by blast
    next
      case (Some r2)
      then obtain token2 save2 cmd2 where r2: "strtok cmd1 save = Some (token2, save2, cmd2)" by (cases r2) auto
      have l2: "length cmd2 = length cmd" using strtok_length [OF r2] l1 by simp
      have "processCommand now cmd g =
         (cmd2, (cleared now g)\<lparr>leftMotor := Motor_setTarget (atoi token) (leftMotor g),
                                rightMotor := Motor_setTarget (atoi token2) (rightMotor g),
                                isLeftMotorActive := (atoi token \<noteq> 0),
                                isRightMotorActive := (atoi token2 \<noteq> 0)\<rparr>)"
        using False r r2 by (simp add: processCommand_def cleared_def transmitCode_def Let_def)
      moreover have "\<not> rejected cmd" using False r r2 by (simp add: rejected_def)
      ultimately show ?thesis using motor False l2 by blast
    qed
  qed
qed

lemma processCommand_length [simp]: "length (fst (processCommand now cmd g)) = length cmd"
  by (rule processCommand_cases [of cmd now g]) simp_all

lemma cleared_simps [simp]:
  "lastCommandTime (cleared now g) = now"
  "failsafeTriggered (cleared now g) = False"
  "events (cleared now g) = events g @ (if failsafeTriggered g then [SAFE_FAILSAFE_CLEAR] else [])"
  "leftMotor (cleared now g) = leftMotor g"
  "rightMotor (cleared now g) = rightMotor g"
  "controller (cleared now g) = controller g"
  "servoCommands (cleared now g) = servoCommands g"
  "isLeftMotorActive (cleared now g) = isLeftMotorActive g"
  "isRightMotorActive (cleared now g) = isRightMotorActive g"
  "ledSys (cleared now g) = ledSys g"
  "usbBuffer (cleared now g) = usbBuffer g"
  "usbIndex (cleared now g) = usbIndex g"
  "radioBuffer (cleared now g) = radioBuffer g"
  "radioIndex (cleared now g) = radioIndex g"
  "FAILSAFE_TIMEOUT (cleared now g) = FAILSAFE_TIMEOUT g"
  "lastMotorTime (cleared now g) = lastMotorTime g"
  "lastServoTime (cleared now g) = lastServoTime g"
  "serialCommunicationFlag (cleared now g) = serialCommunicationFlag g"
  "isSDReady (cleared now g) = isSDReady g"
  by (simp_all add: cleared_def transmitCode_def)

lemma processCommand_failsafe [simp]:
  "lastCommandTime (snd (processCommand now cmd g)) = now"
  "failsafeTriggered (snd (processCommand now cmd g)) = False"
  "events (snd (processCommand now cmd g)) = events g @ (if failsafeTriggered g then [SAFE_FAILSAFE_CLEAR] else [])"
  by (rule processCommand_cases [of cmd now g]; simp)+

lemma processCommand_frame [simp]:
  "controller (snd (processCommand now cmd g)) = controller g"
  "ledSys (snd (processCommand now cmd g)) = ledSys g"
  "usbBuffer (snd (processCommand now cmd g)) = usbBuffer g"
  "usbIndex (snd (processCommand now cmd g)) = usbIndex g"
  "radioBuffer (snd (processCommand now cmd g)) = radioBuffer g"
  "radioIndex (snd (processCommand now cmd g)) = radioIndex g"
  "FAILSAFE_TIMEOUT (snd (processCommand now cmd g)) = FAILSAFE_TIMEOUT g"
  "lastMotorTime (snd (processCommand now cmd g)) = lastMotorTime g"
  "lastServoTime (snd (processCommand now cmd g)) = lastServoTime g"
  "serialCommunicationFlag (snd (processCommand now cmd g)) = serialCommunicationFlag g"
  "isSDReady (snd (processCommand now cmd g)) = isSDReady g"
  "length (servoCommands (snd (processCommand now cmd g))) = length (servoCommands g)"
  by (rule processCommand_cases [of cmd now g]; simp)+

lemma processCommand_rejected:
  "rejected cmd \<Longrightarrow> actuators (snd (processCommand now cmd g)) = actuators g"
  by (rule processCommand_cases [of cmd now g]) (simp_all add: actuators_def rejected_def)

lemma constrain_nonzero: "constrain v (- 255) (255::int) \<noteq> 0 \<longleftrightarrow> v \<noteq> 0"
  by (simp add: constrain_def)

lemma processCommand_flags_ok:
  "flags_ok g \<Longrightarrow> flags_ok (snd (processCommand now cmd g))"
  by (rule processCommand_cases [of cmd now g])
     (auto simp: flags_ok_def Motor_setTarget_def constrain_def)

lemma processCommand_state_ok:
  "state_ok g \<Longrightarrow> state_ok (snd (processCommand now cmd g))"
  by (simp add: state_ok_def)

lemma of_char_eq_nat: "(of_char c :: nat) = n \<Longrightarrow> (of_char d :: nat) = n \<Longrightarrow> c = d"
  by (metis of_char_eq_iff)

lemma digit_1_to_6: "c \<in> set ''123456'' \<longleftrightarrow> 49 \<le> (of_char c :: nat) \<and> (of_char c :: nat) \<le> 54"
proof
  assume "c \<in> set ''123456''"
  then show "49 \<le> (of_char c :: nat) \<and> (of_char c :: nat) \<le> 54" by auto
next
  assume r: "49 \<le> (of_char c :: nat) \<and> (of_char c :: nat) \<le> 54"
  then consider "(of_char c :: nat) = 49" | "(of_char c :: nat) = 50" | "(of_char c :: nat) = 51"
    | "(of_char c :: nat) = 52" | "(of_char c :: nat) = 53" | "(of_char c :: nat) = 54"
    by linarith
  then show "c \<in> set ''123456''"
  proof cases
    case 1
    then have "c = CHR ''1''" by (rule of_char_eq_nat) simp
    then show ?thesis by simp
  next
    case 2
    then have "c = CHR ''2''" by (rule of_char_eq_nat) simp
    then show ?thesis by simp
  next
    case 3
    then have "c = CHR ''3''" by (rule of_char_eq_nat) simp
    then show ?thesis by simp
  next
    case 4
    then have "c = CHR ''4''" by (rule of_char_eq_nat) simp
    then show ?thesis by simp
  next
    case 5
    then have "c = CHR ''5''" by (rule of_char_eq_nat) simp
    then show ?thesis by simp
  next
    case 6
    then have "c = CHR ''6''" by (rule of_char_eq_nat) simp
    then show ?thesis by simp
  qed
qed

text \<open>
  Claim C6. For a line whose first character is \<open>S\<close>: when the second character is one
  of the digits 1 to 6, the pending command of that joint (0-based index: digit minus 1)
  becomes the third character if that is \<open>L\<close> or \<open>R\<close> and Hold (0) for any other third
  character, and nothing else of the actuator state changes; when the second character
  is anything else, the line changes no joint command, no motor and no other actuator
  state.
\<close>

theorem joint_line_sets_command:
  assumes "cmd ! 0 = CHR ''S''"
  shows "(cmd ! 1 \<in> set ''123456'' \<longrightarrow>
            actuators (snd (processCommand now cmd g)) =
              (leftMotor g, rightMotor g, controller g,
               (servoCommands g)[of_char (cmd ! 1) - of_char (CHR ''1'') :=
                  (if cmd ! 2 = CHR ''L'' \<or> cmd ! 2 = CHR ''R'' then cmd ! 2 else NUL)],
               isLeftMotorActive g, isRightMotorActive g))
       \<and> (cmd ! 1 \<notin> set ''123456'' \<longrightarrow> actuators (snd (processCommand now cmd g)) = actuators g)"
proof (cases "49 \<le> (of_char (cmd ! 1) :: nat) \<and> (of_char (cmd ! 1) :: nat) \<le> 54")
  case True
  then have m: "cmd ! 1 \<in> set ''123456''" using digit_1_to_6 [of "cmd ! 1"] by blast
  have "actuators (snd (processCommand now cmd g)) =
              (leftMotor g, rightMotor g, controller g,
               (servoCommands g)[of_char (cmd ! 1) - of_char (CHR ''1'') :=
                  (if cmd ! 2 = CHR ''L'' \<or> cmd ! 2 = CHR ''R'' then cmd ! 2 else NUL)],
               isLeftMotorActive g, isRightMotorActive g)"
    using True by (simp add: processCommand_joint [OF assms] actuators_def)
  then show ?thesis using m by blast
next
  case False
  then have m: "cmd ! 1 \<notin> set ''123456''" using digit_1_to_6 [of "cmd ! 1"] by blast
  have "actuators (snd (processCommand now cmd g)) = actuators g"
    by (simp add: processCommand_joint_out_of_range [OF assms False] actuators_def)
  then show ?thesis using m by blast
qed

lemma replicate_6: "replicate 6 x = [x, x, x, x, x, x]"
  by (simp add: eval_nat_numeral)

theorem joint_line_sets_command_witness:
  "''S3L'' ! 0 = CHR ''S'' \<and> ''S3L'' ! 1 \<in> set ''123456''
   \<and> servoCommands (snd (processCommand 7 ''S3L'' initial_globals)) = [NUL, NUL, CHR ''L'', NUL, NUL, NUL]
   \<and> ''S9X'' ! 0 = CHR ''S'' \<and> ''S9X'' ! 1 \<notin> set ''123456''
   \<and> actuators (snd (processCommand 7 ''S9X'' initial_globals)) = actuators initial_globals"
  using joint_line_sets_command [of "''S3L''" 7 initial_globals]
        joint_line_sets_command [of "''S9X''" 7 initial_globals]
  by (simp add: actuators_def initial_globals_def replicate_6)

section \<open>checkInput: framing of the byte stream\<close>

lemma checkInput_Nil [simp]: "checkInput [] x = Some ([], x)"
  by (subst checkInput.simps) (simp add: available_def)

lemma checkInput_Cons [simp]:
  "checkInput ((c, now) # rest) x =
     (case checkInput_byte c now x of None \<Rightarrow> None | Some x' \<Rightarrow> checkInput rest x')"
  by (subst checkInput.simps) (simp add: available_def cong: option.case_cong)

lemma checkInput_byte_ok:
  assumes "buffer_ok buffer index"
  shows "checkInput_byte c now (buffer, index, g) =
     Some (if c = CHR 0x0A \<or> c = CHR 0x0D
           then (if index > 0
                 then (fst (processCommand now (buffer[nat index := NUL]) g), 0,
                       snd (processCommand now (buffer[nat index := NUL]) g))
                 else (buffer, index, g))
           else (if index < MAX_CMD_LEN - 1 then (buffer[nat index := c], index + 1, g)
                 else (buffer, index, g)))"
  using assms
  by (auto simp: checkInput_byte.simps buffer_ok_def store_def MAX_CMD_LEN_def split: prod.splits)

lemma buffer_ok_update [simp]: "buffer_ok (buffer[i := c]) index = buffer_ok buffer index"
  by (simp add: buffer_ok_def)

lemma buffer_ok_processCommand [simp]:
  "buffer_ok (fst (processCommand now cmd g)) index = buffer_ok cmd index"
  by (simp add: buffer_ok_def)

lemma buffer_ok_zero: "buffer_ok buffer index \<Longrightarrow> buffer_ok buffer 0"
  by (simp add: buffer_ok_def MAX_CMD_LEN_def)

lemma buffer_ok_Suc: "buffer_ok buffer index \<Longrightarrow> index < MAX_CMD_LEN - 1 \<Longrightarrow> buffer_ok buffer (index + 1)"
  by (simp add: buffer_ok_def MAX_CMD_LEN_def)

lemma checkInput_invariant:
  assumes "buffer_ok buffer index" and "P g"
    and step: "\<And>now cmd g. P g \<Longrightarrow> P (snd (processCommand now cmd g))"
  shows "\<exists>buffer' g'. checkInput st (buffer, index, g) = Some ([], buffer', index_after st index, g')
           \<and> buffer_ok buffer' (index_after st index) \<and> P g'"
  using assms(1,2)
proof (induction st arbitrary: buffer index g)
  case Nil
  then show ?case by simp
next
  case (Cons x st)
  obtain c now where x: "x = (c, now)" by (cases x)
  show ?case
  proof (cases "c = CHR 0x0A \<or> c = CHR 0x0D")
    case True
    show ?thesis
    proof (cases "index > 0")
      case pos: True
      let ?r = "processCommand now (buffer[nat index := NUL]) g"
      have "buffer_ok (fst ?r) 0" using Cons.prems(1) by (simp add: buffer_ok_zero)
      moreover have "P (snd ?r)" using Cons.prems(2) step by simp
      ultimately show ?thesis
        using Cons.IH [of "fst ?r" 0 "snd ?r"] True pos x checkInput_byte_ok [OF Cons.prems(1)]
        by simp
    next
      case False
      then show ?thesis
        using Cons.IH [OF Cons.prems] True x checkInput_byte_ok [OF Cons.prems(1)] by simp
    qed
  next
    case False
    show ?thesis
    proof (cases "index < MAX_CMD_LEN - 1")
      case room: True
      have "buffer_ok (buffer[nat index := c]) (index + 1)"
        using Cons.prems(1) room by (simp add: buffer_ok_Suc)
      then show ?thesis
        using Cons.IH [of "buffer[nat index := c]" "index + 1" g] Cons.prems(2) False room x
          checkInput_byte_ok [OF Cons.prems(1)]
        by simp
    next
      case full: False
      then show ?thesis
        using Cons.IH [OF Cons.prems] False x checkInput_byte_ok [OF Cons.prems(1)] by simp
    qed
  qed
qed

lemma checkInput_cases_induct [consumes 1, case_names empty dispatch skip append drop]:
  assumes ok: "buffer_ok buffer index"
    and empty: "\<And>buffer index g. buffer_ok buffer index \<Longrightarrow> Q [] buffer index g"
    and dispatch: "\<And>c now st buffer index g.
           buffer_ok buffer index \<Longrightarrow> c = CHR 0x0A \<or> c = CHR 0x0D \<Longrightarrow> index > 0 \<Longrightarrow>
           Q st (fst (processCommand now (buffer[nat index := NUL]) g)) 0
                (snd (processCommand now (buffer[nat index := NUL]) g)) \<Longrightarrow>
           Q ((c, now) # st) buffer index g"
    and skip: "\<And>c now st buffer index g.
           buffer_ok buffer index \<Longrightarrow> c = CHR 0x0A \<or> c = CHR 0x0D \<Longrightarrow> \<not> index > 0 \<Longrightarrow>
           Q st buffer index g \<Longrightarrow> Q ((c, now) # st) buffer index g"
    and append: "\<And>c now st buffer index g.
           buffer_ok buffer index \<Longrightarrow> \<not> (c = CHR 0x0A \<or> c = CHR 0x0D) \<Longrightarrow> index < MAX_CMD_LEN - 1 \<Longrightarrow>
           Q st (buffer[nat index := c]) (index + 1) g \<Longrightarrow> Q ((c, now) # st) buffer index g"
    and drop: "\<And>c now st buffer index g.
           buffer_ok buffer index \<Longrightarrow> \<not> (c = CHR 0x0A \<or> c = CHR 0x0D) \<Longrightarrow> \<not> index < MAX_CMD_LEN - 1 \<Longrightarrow>
           Q st buffer index g \<Longrightarrow> Q ((c, now) # st) buffer index g"
  shows "Q st buffer index g"
proof -
  have "\<forall>buffer index g. buffer_ok buffer index \<longrightarrow> Q st buffer index g"
  proof (induction st)
    case Nil
    then show ?case using empty by blast
  next
    case (Cons x st)
    obtain c now where x: "x = (c, now)" by (cases x)
    show ?case
    proof (intro allI impI)
      fix buffer index g
      assume bok: "buffer_ok buffer index"
      show "Q (x # st) buffer index g"
      proof (cases "c = CHR 0x0A \<or> c = CHR 0x0D")
        case True
        show ?thesis
        proof (cases "index > 0")
          case pos: True
          have "buffer_ok (fst (processCommand now (buffer[nat index := NUL]) g)) 0"
            using bok by (simp add: buffer_ok_zero)
          then show ?thesis using dispatch [OF bok True pos] Cons.IH x by simp
        next
          case False
          then show ?thesis using skip [OF bok True] Cons.IH bok x by simp
        qed
      next
        case False
        show ?thesis
        proof (cases "index < MAX_CMD_LEN - 1")
          case room: True
          have "buffer_ok (buffer[nat index := c]) (index + 1)"
            using bok room by (simp add: buffer_ok_Suc)
          then show ?thesis using append [OF bok False room] Cons.IH x by simp
        next
          case full: False
          then show ?thesis using drop [OF bok False] Cons.IH bok x by simp
        qed
      qed
    qed
  qed
  then show ?thesis using ok by blast
qed

lemma checkInput_total:
  assumes "buffer_ok buffer index"
  shows "\<exists>buffer' g'. checkInput st (buffer, index, g) = Some ([], buffer', index_after st index, g')
           \<and> buffer_ok buffer' (index_after st index)"
  using checkInput_invariant [OF assms, of "\<lambda>_. True" g st] by simp

lemma dispatched_times:
  assumes "buffer_ok buffer index"
  shows "map fst (dispatched st (buffer, index, g)) = dispatch_times st index"
  using assms
  by (induction st buffer index g rule: checkInput_cases_induct)
     (simp_all add: checkInput_byte_ok)

lemma checkInput_no_dispatch:
  assumes "buffer_ok buffer index" and "dispatch_times st index = []"
    and "checkInput st (buffer, index, g) = Some (st', buffer', index', g')"
  shows "g' = g"
  using assms
  by (induction st buffer index g rule: checkInput_cases_induct)
     (simp_all add: checkInput_byte_ok)

lemma checkInput_dispatch:
  assumes "buffer_ok buffer index" and "dispatch_times st index \<noteq> []"
    and "checkInput st (buffer, index, g) = Some (st', buffer', index', g')"
  shows "\<not> failsafeTriggered g' \<and> lastCommandTime g' = last (dispatch_times st index)
       \<and> events g' = events g @ (if failsafeTriggered g then [SAFE_FAILSAFE_CLEAR] else [])"
  using assms
proof (induction st buffer index g rule: checkInput_cases_induct)
  case (dispatch c now st buffer index g)
  let ?r = "processCommand now (buffer[nat index := NUL]) g"
  have run: "checkInput st (fst ?r, 0, snd ?r) = Some (st', buffer', index', g')"
    using dispatch by (simp add: checkInput_byte_ok)
  show ?case
  proof (cases "dispatch_times st 0 = []")
    case True
    have "buffer_ok (fst ?r) 0" using dispatch.hyps(1) by (simp add: buffer_ok_zero)
    then have "g' = snd ?r" using checkInput_no_dispatch [OF _ True run] by simp
    then show ?thesis using dispatch.hyps True by simp
  next
    case False
    then show ?thesis using dispatch.IH [OF False run] dispatch.hyps by simp
  qed
qed (simp_all add: checkInput_byte_ok)

lemma checkInput_rejected:
  assumes "buffer_ok buffer index"
    and "list_all (\<lambda>d. rejected (snd d)) (dispatched st (buffer, index, g))"
    and "checkInput st (buffer, index, g) = Some (st', buffer', index', g')"
  shows "actuators g' = actuators g"
  using assms
  by (induction st buffer index g rule: checkInput_cases_induct)
     (simp_all add: checkInput_byte_ok processCommand_rejected)

lemma checkInput_globals:
  assumes "buffer_ok buffer index"
    and "checkInput st (buffer, index, g) = Some (st', buffer', index', g')"
  shows "g' = fold (\<lambda>d h. snd (processCommand (fst d) (snd d) h)) (dispatched st (buffer, index, g)) g"
  using assms
  by (induction st buffer index g rule: checkInput_cases_induct)
     (simp_all add: checkInput_byte_ok)

text \<open>
  Claim C7. With a 32-byte buffer and a fill index in [0, 31], \<open>checkInput\<close> handles the
  available bytes one after the other until none is left. On the first byte: a
  terminator with a non-empty buffer stores NUL at the index, dispatches the buffer and
  resets the index to 0; a terminator with an empty buffer changes nothing; any other
  byte is stored at the index, which then grows by one, if the index is below
  \<open>MAX_CMD_LEN - 1\<close>, and is dropped otherwise; and \<open>checkInput\<close> goes on with the
  remaining bytes from there. The index written is inside the buffer, the buffer and the
  index that result are again 32 bytes and in [0, 31], and so the whole stream is
  consumed without a write outside the buffer (no \<open>None\<close>), ending with the index in
  [0, 31].
\<close>

theorem checkInput_in_bounds:
  assumes "buffer_ok buffer index"
  shows "checkInput [] (buffer, index, g) = Some ([], buffer, index, g)
       \<and> checkInput ((c, now) # rest) (buffer, index, g) =
           checkInput rest
             (if c = CHR 0x0A \<or> c = CHR 0x0D
              then (if index > 0
                    then (fst (processCommand now (buffer[nat index := NUL]) g), 0,
                          snd (processCommand now (buffer[nat index := NUL]) g))
                    else (buffer, index, g))
              else (if index < MAX_CMD_LEN - 1 then (buffer[nat index := c], index + 1, g)
                    else (buffer, index, g)))
       \<and> nat index < length buffer
       \<and> buffer_ok (fst (processCommand now (buffer[nat index := NUL]) g)) 0
       \<and> (index < MAX_CMD_LEN - 1 \<longrightarrow> buffer_ok (buffer[nat index := c]) (index + 1))
       \<and> (\<exists>buffer' g'. checkInput st (buffer, index, g) = Some ([], buffer', index_after st index, g')
              \<and> buffer_ok buffer' (index_after st index))"
proof -
  have 1: "checkInput [] (buffer, index, g) = Some ([], buffer, index, g)" by simp
  have 2: "checkInput ((c, now) # rest) (buffer, index, g) =
           checkInput rest
             (if c = CHR 0x0A \<or> c = CHR 0x0D
              then (if index > 0
                    then (fst (processCommand now (buffer[nat index := NUL]) g), 0,
                          snd (processCommand now (buffer[nat index := NUL]) g))
                    else (buffer, index, g))
              else (if index < MAX_CMD_LEN - 1 then (buffer[nat index := c], index + 1, g)
                    else (buffer, index, g)))"
    by (simp add: checkInput_byte_ok [OF assms])
  have 3: "nat index < length buffer"
    using assms by (auto simp: buffer_ok_def MAX_CMD_LEN_def)
  have 4: "buffer_ok (fst (processCommand now (buffer[nat index := NUL]) g)) 0"
    using buffer_ok_zero [OF assms] by simp
  have 5: "index < MAX_CMD_LEN - 1 \<longrightarrow> buffer_ok (buffer[nat index := c]) (index + 1)"
    using buffer_ok_Suc [OF assms] by simp
  have 6: "\<exists>buffer' g'. checkInput st (buffer, index, g) = Some ([], buffer', index_after st index, g')
              \<and> buffer_ok buffer' (index_after st index)"
    using checkInput_total [OF assms, of st g] .
  show ?thesis using 1 2 3 4 5 6 by blast
qed

lemma framing_example:
  "(case checkInput [(CHR ''S'', 5), (CHR ''1'', 5), (CHR ''L'', 5), (CHR 0x0A, 6), (CHR ''7'', 7)]
           (replicate 32 NUL, 0, initial_globals) of
      Some (st', buffer', index', g') \<Rightarrow>
        st' = [] \<and> index' = 1 \<and> take 4 buffer' = [CHR ''7'', CHR ''1'', CHR ''L'', NUL]
        \<and> servoCommands g' = [CHR ''L'', NUL, NUL, NUL, NUL, NUL] \<and> lastCommandTime g' = 6
    | None \<Rightarrow> False)"
  by code_simp

theorem checkInput_in_bounds_witness:
  "buffer_ok (replicate 32 NUL) 0
   \<and> checkInput [(CHR ''S'', 5), (CHR ''1'', 5), (CHR ''L'', 5), (CHR 0x0A, 6), (CHR ''7'', 7)]
        (replicate 32 NUL, 0, initial_globals)
      = checkInput [(CHR ''1'', 5), (CHR ''L'', 5), (CHR 0x0A, 6), (CHR ''7'', 7)]
          ((replicate 32 NUL)[0 := CHR ''S''], 1, initial_globals)
   \<and> (0::int) < MAX_CMD_LEN - 1 \<and> buffer_ok ((replicate 32 NUL)[0 := CHR ''S'']) 1
   \<and> (\<exists>buffer' g'.
         checkInput [(CHR ''S'', 5), (CHR ''1'', 5), (CHR ''L'', 5), (CHR 0x0A, 6), (CHR ''7'', 7)]
           (replicate 32 NUL, 0, initial_globals) = Some ([], buffer', 1, g')
         \<and> buffer_ok buffer' 1)
   \<and> (case checkInput [(CHR ''S'', 5), (CHR ''1'', 5), (CHR ''L'', 5), (CHR 0x0A, 6), (CHR ''7'', 7)]
           (replicate 32 NUL, 0, initial_globals) of
        Some (st', buffer', index', g') \<Rightarrow>
          st' = [] \<and> index' = 1 \<and> take 4 buffer' = [CHR ''7'', CHR ''1'', CHR ''L'', NUL]
          \<and> servoCommands g' = [CHR ''L'', NUL, NUL, NUL, NUL, NUL] \<and> lastCommandTime g' = 6
      | None \<Rightarrow> False)"
proof -
  have ok: "buffer_ok (replicate 32 NUL) 0" by (simp add: buffer_ok_def MAX_CMD_LEN_def)
  have ix: "index_after [(CHR ''S'', 5), (CHR ''1'', 5), (CHR ''L'', 5), (CHR 0x0A, 6), (CHR ''7'', 7)] 0 = 1"
    by (simp add: MAX_CMD_LEN_def)
  have m: "(0::int) < MAX_CMD_LEN - 1" by (simp add: MAX_CMD_LEN_def)
  note inst = checkInput_in_bounds [OF ok,
        of initial_globals "CHR ''S''" 5 "[(CHR ''1'', 5), (CHR ''L'', 5), (CHR 0x0A, 6), (CHR ''7'', 7)]"
           "[(CHR ''S'', 5), (CHR ''1'', 5), (CHR ''L'', 5), (CHR 0x0A, 6), (CHR ''7'', 7)]"]
  have a: "checkInput [(CHR ''S'', 5), (CHR ''1'', 5), (CHR ''L'', 5), (CHR 0x0A, 6), (CHR ''7'', 7)]
        (replicate 32 NUL, 0, initial_globals)
      = checkInput [(CHR ''1'', 5), (CHR ''L'', 5), (CHR 0x0A, 6), (CHR ''7'', 7)]
          ((replicate 32 NUL)[0 := CHR ''S''], 1, initial_globals)"
    using inst m by (simp del: checkInput_Cons)
  have b: "buffer_ok ((replicate 32 NUL)[0 := CHR ''S'']) 1"
    using inst m by (simp del: checkInput_Cons)
  have c: "\<exists>buffer' g'.
         checkInput [(CHR ''S'', 5), (CHR ''1'', 5), (CHR ''L'', 5), (CHR 0x0A, 6), (CHR ''7'', 7)]
           (replicate 32 NUL, 0, initial_globals) = Some ([], buffer', 1, g')
         \<and> buffer_ok buffer' 1"
    using inst unfolding ix by blast
  show ?thesis using ok a b c m framing_example by blast
qed

text \<open>
  Claim C1 fails as stated. The batch \<open>Q,9\<close>, \<open>S9X\<close> resets the failsafe deadline
  (\<open>lastCommandTime\<close> goes from 0 to 101, the time of the second dispatch), and the line
  \<open>Q,9\<close> is read by \<^verbatim>\<open>atoi\<close> as the motor command 0, 9: the right target becomes 9
  and the right activity flag is set.
\<close>

theorem malformed_batch_counterexample:
  "(let g = setup_node True False 0 initial_globals
    in case checkInput
           [(CHR ''Q'', 100), (CHR '','', 100), (CHR ''9'', 100), (CHR 0x0A, 100),
            (CHR ''S'', 101), (CHR ''9'', 101), (CHR ''X'', 101), (CHR 0x0A, 101)]
           (usbBuffer g, usbIndex g, g) of
      Some (st, b, i, g') \<Rightarrow>
        lastCommandTime g = 0 \<and> lastCommandTime g' = 101
        \<and> targetPWM (rightMotor g) = 0 \<and> targetPWM (rightMotor g') = 9
        \<and> \<not> isRightMotorActive g \<and> isRightMotorActive g'
    | None \<Rightarrow> False)"
  by code_simp

text \<open>
  Claim C1, amended. The globals after a batch are those after \<open>processCommand\<close> on each
  dispatched line in turn, so a batch that dispatches no line changes nothing. Every
  dispatched line, well-formed or not, resets \<open>lastCommandTime\<close> to the time of its
  dispatch and leaves the failsafe untripped, so after a batch with a dispatch the
  deadline is that of the last one. A batch changes no actuator state when every line it
  dispatches is one \<open>processCommand\<close> drops: an \<open>S\<close> line whose index character is not
  1 to 6, or a line without two non-empty comma-separated fields.
\<close>

theorem dispatched_lines_effect:
  assumes "buffer_ok buffer index"
  shows "\<exists>buffer' index' g'. checkInput st (buffer, index, g) = Some ([], buffer', index', g')
     \<and> g' = fold (\<lambda>d h. snd (processCommand (fst d) (snd d) h)) (dispatched st (buffer, index, g)) g
     \<and> (dispatched st (buffer, index, g) = [] \<longrightarrow> g' = g)
     \<and> (dispatched st (buffer, index, g) \<noteq> [] \<longrightarrow>
            lastCommandTime g' = fst (last (dispatched st (buffer, index, g))) \<and> \<not> failsafeTriggered g')
     \<and> (list_all (\<lambda>d. rejected (snd d)) (dispatched st (buffer, index, g)) \<longrightarrow>
            actuators g' = actuators g)"
proof -
  obtain buffer' g' where run: "checkInput st (buffer, index, g) = Some ([], buffer', index_after st index, g')"
    using checkInput_total [OF assms] by blast
  have times: "map fst (dispatched st (buffer, index, g)) = dispatch_times st index"
    by (rule dispatched_times [OF assms])
  have f: "g' = fold (\<lambda>d h. snd (processCommand (fst d) (snd d) h)) (dispatched st (buffer, index, g)) g"
    by (rule checkInput_globals [OF assms run])
  have a: "dispatched st (buffer, index, g) = [] \<longrightarrow> g' = g"
    using f by simp
  have b: "dispatched st (buffer, index, g) \<noteq> [] \<longrightarrow>
            lastCommandTime g' = fst (last (dispatched st (buffer, index, g))) \<and> \<not> failsafeTriggered g'"
  proof
    assume ne: "dispatched st (buffer, index, g) \<noteq> []"
    then have "dispatch_times st index \<noteq> []" using times by auto
    then have "\<not> failsafeTriggered g' \<and> lastCommandTime g' = last (dispatch_times st index)"
      using checkInput_dispatch [OF assms _ run] by simp
    then show "lastCommandTime g' = fst (last (dispatched st (buffer, index, g))) \<and> \<not> failsafeTriggered g'"
      using ne times last_map [of "dispatched st (buffer, index, g)" fst] by simp
  qed
  have c: "list_all (\<lambda>d. rejected (snd d)) (dispatched st (buffer, index, g)) \<longrightarrow> actuators g' = actuators g"
    using checkInput_rejected [OF assms _ run] by blast
  show ?thesis using run f a b c by blast
qed

lemma rejected_batch_eval:
  "(let ds = dispatched
           [(CHR ''S'', 100), (CHR ''9'', 100), (CHR ''X'', 100), (CHR 0x0A, 101),
            (CHR ''7'', 102), (CHR 0x0D, 102)]
           (replicate 32 NUL, 0, setup_node True False 0 initial_globals)
    in map fst ds = [101, 102] \<and> list_all (\<lambda>d. rejected (snd d)) ds)"
  by code_simp

lemma rejected_batch_facts:
  "map fst (dispatched
           [(CHR ''S'', 100), (CHR ''9'', 100), (CHR ''X'', 100), (CHR 0x0A, 101),
            (CHR ''7'', 102), (CHR 0x0D, 102)]
           (replicate 32 NUL, 0, setup_node True False 0 initial_globals)) = [101, 102]"
  "list_all (\<lambda>d. rejected (snd d)) (dispatched
           [(CHR ''S'', 100), (CHR ''9'', 100), (CHR ''X'', 100), (CHR 0x0A, 101),
            (CHR ''7'', 102), (CHR 0x0D, 102)]
           (replicate 32 NUL, 0, setup_node True False 0 initial_globals))"
proof -
  note e = rejected_batch_eval [unfolded Let_def]
  show "map fst (dispatched
           [(CHR ''S'', 100), (CHR ''9'', 100), (CHR ''X'', 100), (CHR 0x0A, 101),
            (CHR ''7'', 102), (CHR 0x0D, 102)]
           (replicate 32 NUL, 0, setup_node True False 0 initial_globals)) = [101, 102]"
    using e by (rule conjunct1)
  show "list_all (\<lambda>d. rejected (snd d)) (dispatched
           [(CHR ''S'', 100), (CHR ''9'', 100), (CHR ''X'', 100), (CHR 0x0A, 101),
            (CHR ''7'', 102), (CHR 0x0D, 102)]
           (replicate 32 NUL, 0, setup_node True False 0 initial_globals))"
    using e by (rule conjunct2)
qed

theorem dispatched_lines_effect_witness:
  "buffer_ok (replicate 32 NUL) 0
   \<and> map fst (dispatched
           [(CHR ''S'', 100), (CHR ''9'', 100), (CHR ''X'', 100), (CHR 0x0A, 101),
            (CHR ''7'', 102), (CHR 0x0D, 102)]
           (replicate 32 NUL, 0, setup_node True False 0 initial_globals)) = [101, 102]
   \<and> list_all (\<lambda>d. rejected (snd d)) (dispatched
           [(CHR ''S'', 100), (CHR ''9'', 100), (CHR ''X'', 100), (CHR 0x0A, 101),
            (CHR ''7'', 102), (CHR 0x0D, 102)]
           (replicate 32 NUL, 0, setup_node True False 0 initial_globals))
   \<and> (\<exists>buffer' index' g'.
         checkInput
           [(CHR ''S'', 100), (CHR ''9'', 100), (CHR ''X'', 100), (CHR 0x0A, 101),
            (CHR ''7'', 102), (CHR 0x0D, 102)]
           (replicate 32 NUL, 0, setup_node True False 0 initial_globals) = Some ([], buffer', index', g')
         \<and> lastCommandTime g' = 102 \<and> \<not> failsafeTriggered g'
         \<and> actuators g' = actuators (setup_node True False 0 initial_globals))"
proof -
  let ?st = "[(CHR ''S'', 100), (CHR ''9'', 100), (CHR ''X'', 100), (CHR 0x0A, 101),
            (CHR ''7'', 102), (CHR 0x0D, 102)] :: stream"
  let ?g = "setup_node True False 0 initial_globals"
  let ?d = "dispatched ?st (replicate 32 NUL, 0, ?g)"
  have ok: "buffer_ok (replicate 32 NUL) 0" by (simp add: buffer_ok_def MAX_CMD_LEN_def)
  have t: "map fst ?d = [101, 102]" and r: "list_all (\<lambda>d. rejected (snd d)) ?d"
    by (rule rejected_batch_facts)+
  have ne: "?d \<noteq> []" using t by auto
  have "fst (last ?d) = last (map fst ?d)" using ne by (simp add: last_map)
  then have l: "fst (last ?d) = 102" using t by simp
  obtain buffer' index' g' where
    "checkInput ?st (replicate 32 NUL, 0, ?g) = Some ([], buffer', index', g')"
    "lastCommandTime g' = fst (last ?d) \<and> \<not> failsafeTriggered g'"
    "actuators g' = actuators ?g"
    using dispatched_lines_effect [OF ok, of ?st ?g] ne r by blast
  then show ?thesis using ok t r l by auto
qed

section \<open>The loop: invariants of every reachable state\<close>

lemma length_6: "length xs = 6 \<Longrightarrow> \<exists>a b c d e f. xs = [a, b, c, d, e, f]"
  by (auto simp: length_Suc_conv eval_nat_numeral)

lemma upt_6: "[0..<6] = [0, 1, 2, 3, 4, 5]"
  by (simp add: upt_rec)

lemma fold_clear_6: "length xs = 6 \<Longrightarrow> fold (\<lambda>i ys. ys[i := v]) [0..<6] xs = replicate 6 v"
  using length_6 [of xs] by (auto simp: upt_6 replicate_6)

lemma readInputs_invariant:
  assumes ok: "state_ok g" and P: "P g"
    and step: "\<And>now cmd g. P g \<Longrightarrow> P (snd (processCommand now cmd g))"
    and usb: "\<And>g b i. P (g\<lparr>usbBuffer := b, usbIndex := i\<rparr>) = P g"
    and radio: "\<And>g b i. P (g\<lparr>radioBuffer := b, radioIndex := i\<rparr>) = P g"
  shows "\<exists>g'. readInputs usb radio g = Some g' \<and> state_ok g' \<and> P g'
            \<and> usbIndex g' = index_after usb (usbIndex g)
            \<and> radioIndex g' = index_after radio (radioIndex g)"
proof -
  let ?Q = "\<lambda>h. P h \<and> state_ok h \<and> usbBuffer h = usbBuffer g \<and> usbIndex h = usbIndex g
              \<and> radioBuffer h = radioBuffer g \<and> radioIndex h = radioIndex g"
  have bu: "buffer_ok (usbBuffer g) (usbIndex g)" and br: "buffer_ok (radioBuffer g) (radioIndex g)"
    using ok by (simp_all add: state_ok_def)
  have Qstep: "\<And>now cmd h. ?Q h \<Longrightarrow> ?Q (snd (processCommand now cmd h))"
    using step by (simp add: processCommand_state_ok)
  obtain ub g1 where 1: "checkInput usb (usbBuffer g, usbIndex g, g) = Some ([], ub, index_after usb (usbIndex g), g1)"
    and ub: "buffer_ok ub (index_after usb (usbIndex g))" and Q1: "?Q g1"
    using checkInput_invariant [OF bu, of ?Q g usb] P ok Qstep by blast
  let ?g1 = "g1\<lparr>usbBuffer := ub, usbIndex := index_after usb (usbIndex g)\<rparr>"
  let ?R = "\<lambda>h. P h \<and> state_ok h \<and> usbIndex h = index_after usb (usbIndex g)
              \<and> radioBuffer h = radioBuffer g \<and> radioIndex h = radioIndex g"
  have R1: "?R ?g1" using Q1 ub usb br by (auto simp: state_ok_def)
  have Rstep: "\<And>now cmd h. ?R h \<Longrightarrow> ?R (snd (processCommand now cmd h))"
    using step by (simp add: processCommand_state_ok)
  have br1: "buffer_ok (radioBuffer ?g1) (radioIndex ?g1)" using R1 br by simp
  obtain rb g2 where 2: "checkInput radio (radioBuffer ?g1, radioIndex ?g1, ?g1)
        = Some ([], rb, index_after radio (radioIndex ?g1), g2)"
    and rb: "buffer_ok rb (index_after radio (radioIndex ?g1))" and R2: "?R g2"
    using checkInput_invariant [OF br1, of ?R ?g1 radio] R1 Rstep by blast
  let ?g2 = "g2\<lparr>radioBuffer := rb, radioIndex := index_after radio (radioIndex ?g1)\<rparr>"
  have "readInputs usb radio g = Some ?g2"
    using 1 2 by (simp add: readInputs_def)
  moreover have "state_ok ?g2 \<and> P ?g2" using R2 rb radio R1 by (auto simp: state_ok_def)
  moreover have "usbIndex ?g2 = index_after usb (usbIndex g)" using R2 by simp
  moreover have "radioIndex ?g2 = index_after radio (radioIndex g)" using R1 by simp
  ultimately show ?thesis by blast
qed

lemma readInputs_quiet:
  assumes ok: "state_ok g"
    and q1: "dispatch_times usb (usbIndex g) = []" and q2: "dispatch_times radio (radioIndex g) = []"
  shows "\<exists>ub rb. readInputs usb radio g =
            Some (g\<lparr>usbBuffer := ub, usbIndex := index_after usb (usbIndex g),
                    radioBuffer := rb, radioIndex := index_after radio (radioIndex g)\<rparr>)
          \<and> buffer_ok ub (index_after usb (usbIndex g))
          \<and> buffer_ok rb (index_after radio (radioIndex g))"
proof -
  have bu: "buffer_ok (usbBuffer g) (usbIndex g)" and br: "buffer_ok (radioBuffer g) (radioIndex g)"
    using ok by (simp_all add: state_ok_def)
  obtain ub g1 where 1: "checkInput usb (usbBuffer g, usbIndex g, g) = Some ([], ub, index_after usb (usbIndex g), g1)"
    and ub: "buffer_ok ub (index_after usb (usbIndex g))"
    using checkInput_total [OF bu] by blast
  have g1: "g1 = g" using checkInput_no_dispatch [OF bu q1 1] .
  let ?g1 = "g\<lparr>usbBuffer := ub, usbIndex := index_after usb (usbIndex g)\<rparr>"
  have br1: "buffer_ok (radioBuffer ?g1) (radioIndex ?g1)" using br by simp
  obtain rb g2 where 2: "checkInput radio (radioBuffer ?g1, radioIndex ?g1, ?g1)
        = Some ([], rb, index_after radio (radioIndex ?g1), g2)"
    and rb: "buffer_ok rb (index_after radio (radioIndex ?g1))"
    using checkInput_total [OF br1] by blast
  have g2: "g2 = ?g1" using checkInput_no_dispatch [OF br1 _ 2] q2 by simp
  have "readInputs usb radio g =
            Some (g\<lparr>usbBuffer := ub, usbIndex := index_after usb (usbIndex g),
                    radioBuffer := rb, radioIndex := index_after radio (radioIndex g)\<rparr>)"
    using 1 2 g1 g2 by (simp add: readInputs_def)
  then show ?thesis using ub rb by auto
qed

lemma readInputs_clear:
  assumes ok: "state_ok g" and tr: "failsafeTriggered g"
    and d: "dispatch_times usb (usbIndex g) \<noteq> [] \<or> dispatch_times radio (radioIndex g) \<noteq> []"
  shows "\<exists>g'. readInputs usb radio g = Some g' \<and> \<not> failsafeTriggered g'
            \<and> events g' = events g @ [SAFE_FAILSAFE_CLEAR]"
proof -
  have bu: "buffer_ok (usbBuffer g) (usbIndex g)" and br: "buffer_ok (radioBuffer g) (radioIndex g)"
    using ok by (simp_all add: state_ok_def)
  obtain ub g1 where 1: "checkInput usb (usbBuffer g, usbIndex g, g) = Some ([], ub, index_after usb (usbIndex g), g1)"
    using checkInput_total [OF bu] by blast
  let ?P = "\<lambda>h. radioBuffer h = radioBuffer g \<and> radioIndex h = radioIndex g"
  have "\<exists>b h. checkInput usb (usbBuffer g, usbIndex g, g) = Some ([], b, index_after usb (usbIndex g), h)
          \<and> buffer_ok b (index_after usb (usbIndex g)) \<and> ?P h"
    using checkInput_invariant [OF bu, of ?P g usb] by simp
  then have fr: "radioBuffer g1 = radioBuffer g" "radioIndex g1 = radioIndex g" using 1 by auto
  let ?g1 = "g1\<lparr>usbBuffer := ub, usbIndex := index_after usb (usbIndex g)\<rparr>"
  have br1: "buffer_ok (radioBuffer ?g1) (radioIndex ?g1)" using br fr by simp
  obtain rb g2 where 2: "checkInput radio (radioBuffer ?g1, radioIndex ?g1, ?g1)
        = Some ([], rb, index_after radio (radioIndex ?g1), g2)"
    using checkInput_total [OF br1] by blast
  let ?g2 = "g2\<lparr>radioBuffer := rb, radioIndex := index_after radio (radioIndex ?g1)\<rparr>"
  have r: "readInputs usb radio g = Some ?g2" using 1 2 by (simp add: readInputs_def)
  have "\<not> failsafeTriggered g2 \<and> events g2 = events g @ [SAFE_FAILSAFE_CLEAR]"
  proof (cases "dispatch_times usb (usbIndex g) = []")
    case True
    then have g1: "g1 = g" using checkInput_no_dispatch [OF bu _ 1] by simp
    have "dispatch_times radio (radioIndex ?g1) \<noteq> []" using d True fr by simp
    then show ?thesis using checkInput_dispatch [OF br1 _ 2] g1 tr by simp
  next
    case False
    then have a: "\<not> failsafeTriggered g1 \<and> events g1 = events g @ [SAFE_FAILSAFE_CLEAR]"
      using checkInput_dispatch [OF bu _ 1] tr by simp
    show ?thesis
    proof (cases "dispatch_times radio (radioIndex ?g1) = []")
      case True
      then have "g2 = ?g1" using checkInput_no_dispatch [OF br1 _ 2] by simp
      then show ?thesis using a by simp
    next
      case False
      then show ?thesis using checkInput_dispatch [OF br1 _ 2] a by simp
    qed
  qed
  then show ?thesis using r by simp
qed

text \<open>
  Claim C3. In a tripped state, the dispatch of any command clears the tripped flag in
  that same call and emits \<open>SAFE_FAILSAFE_CLEAR\<close> once. A batch that dispatches at least
  one line, on one port or over the two ports drained in one pass of the loop, ends with
  the flag cleared and with exactly one \<open>SAFE_FAILSAFE_CLEAR\<close> added to the events,
  however many lines it holds.
\<close>

theorem failsafe_cleared_once:
  assumes "state_ok g" and "failsafeTriggered g"
    and "dispatch_times usb (usbIndex g) \<noteq> [] \<or> dispatch_times radio (radioIndex g) \<noteq> []"
  shows "(\<forall>now cmd. \<not> failsafeTriggered (snd (processCommand now cmd g))
                   \<and> events (snd (processCommand now cmd g)) = events g @ [SAFE_FAILSAFE_CLEAR])
       \<and> (dispatch_times usb (usbIndex g) \<noteq> [] \<longrightarrow>
            (\<exists>buffer' index' g'.
                checkInput usb (usbBuffer g, usbIndex g, g) = Some ([], buffer', index', g')
                \<and> \<not> failsafeTriggered g' \<and> events g' = events g @ [SAFE_FAILSAFE_CLEAR]))
       \<and> (\<exists>g'. readInputs usb radio g = Some g' \<and> \<not> failsafeTriggered g'
              \<and> events g' = events g @ [SAFE_FAILSAFE_CLEAR])"
proof -
  have bu: "buffer_ok (usbBuffer g) (usbIndex g)" using assms(1) by (simp add: state_ok_def)
  obtain buffer' g' where run: "checkInput usb (usbBuffer g, usbIndex g, g)
       = Some ([], buffer', index_after usb (usbIndex g), g')"
    using checkInput_total [OF bu] by blast
  have "dispatch_times usb (usbIndex g) \<noteq> [] \<longrightarrow>
          \<not> failsafeTriggered g' \<and> events g' = events g @ [SAFE_FAILSAFE_CLEAR]"
    using checkInput_dispatch [OF bu _ run] assms(2) by simp
  then have b: "dispatch_times usb (usbIndex g) \<noteq> [] \<longrightarrow>
            (\<exists>buffer' index' g'.
                checkInput usb (usbBuffer g, usbIndex g, g) = Some ([], buffer', index', g')
                \<and> \<not> failsafeTriggered g' \<and> events g' = events g @ [SAFE_FAILSAFE_CLEAR])"
    using run by blast
  have a: "\<forall>now cmd. \<not> failsafeTriggered (snd (processCommand now cmd g))
                   \<and> events (snd (processCommand now cmd g)) = events g @ [SAFE_FAILSAFE_CLEAR]"
    using assms(2) by simp
  show ?thesis using a b readInputs_clear [OF assms] by blast
qed

lemma two_ports_times:
  "dispatch_times [(CHR ''1'', 5), (CHR '','', 5), (CHR ''2'', 5), (CHR 0x0A, 6),
                   (CHR ''3'', 7), (CHR '','', 7), (CHR ''4'', 7), (CHR 0x0D, 8)] 0 = [6, 8]"
  "dispatch_times [(CHR ''S'', 9), (CHR ''1'', 9), (CHR ''L'', 9), (CHR 0x0A, 9)] 0 = [9]"
  by code_simp+

lemma tripped_state_eval:
  "(let g = initial_globals\<lparr>failsafeTriggered := True\<rparr>
    in state_ok g \<and> usbIndex g = 0 \<and> radioIndex g = 0 \<and> events g = [])"
  by code_simp

lemma tripped_state:
  "state_ok (initial_globals\<lparr>failsafeTriggered := True\<rparr>)"
  "usbIndex (initial_globals\<lparr>failsafeTriggered := True\<rparr>) = 0"
  "radioIndex (initial_globals\<lparr>failsafeTriggered := True\<rparr>) = 0"
  "events (initial_globals\<lparr>failsafeTriggered := True\<rparr>) = []"
proof -
  note e = tripped_state_eval [unfolded Let_def]
  show "state_ok (initial_globals\<lparr>failsafeTriggered := True\<rparr>)" using e by blast
  show "usbIndex (initial_globals\<lparr>failsafeTriggered := True\<rparr>) = 0" using e by blast
  show "radioIndex (initial_globals\<lparr>failsafeTriggered := True\<rparr>) = 0" using e by blast
  show "events (initial_globals\<lparr>failsafeTriggered := True\<rparr>) = []" using e by blast
qed

theorem failsafe_cleared_once_witness:
  "state_ok (initial_globals\<lparr>failsafeTriggered := True\<rparr>)
   \<and> failsafeTriggered (initial_globals\<lparr>failsafeTriggered := True\<rparr>)
   \<and> dispatch_times [(CHR ''1'', 5), (CHR '','', 5), (CHR ''2'', 5), (CHR 0x0A, 6),
                      (CHR ''3'', 7), (CHR '','', 7), (CHR ''4'', 7), (CHR 0x0D, 8)] 0 = [6, 8]
   \<and> dispatch_times [(CHR ''S'', 9), (CHR ''1'', 9), (CHR ''L'', 9), (CHR 0x0A, 9)] 0 = [9]
   \<and> (\<exists>g'. readInputs
               [(CHR ''1'', 5), (CHR '','', 5), (CHR ''2'', 5), (CHR 0x0A, 6),
                (CHR ''3'', 7), (CHR '','', 7), (CHR ''4'', 7), (CHR 0x0D, 8)]
               [(CHR ''S'', 9), (CHR ''1'', 9), (CHR ''L'', 9), (CHR 0x0A, 9)]
               (initial_globals\<lparr>failsafeTriggered := True\<rparr>) = Some g'
          \<and> \<not> failsafeTriggered g' \<and> events g' = [SAFE_FAILSAFE_CLEAR])"
proof -
  let ?g = "initial_globals\<lparr>failsafeTriggered := True\<rparr>"
  let ?usb = "[(CHR ''1'', 5), (CHR '','', 5), (CHR ''2'', 5), (CHR 0x0A, 6),
               (CHR ''3'', 7), (CHR '','', 7), (CHR ''4'', 7), (CHR 0x0D, 8)] :: stream"
  let ?radio = "[(CHR ''S'', 9), (CHR ''1'', 9), (CHR ''L'', 9), (CHR 0x0A, 9)] :: stream"
  have tr: "failsafeTriggered ?g" by simp
  have d: "dispatch_times ?usb (usbIndex ?g) \<noteq> [] \<or> dispatch_times ?radio (radioIndex ?g) \<noteq> []"
    unfolding tripped_state two_ports_times by simp
  have "\<exists>g'. readInputs ?usb ?radio ?g = Some g' \<and> \<not> failsafeTriggered g'
          \<and> events g' = events ?g @ [SAFE_FAILSAFE_CLEAR]"
    using failsafe_cleared_once [OF tripped_state(1) tr d] by blast
  then have "\<exists>g'. readInputs ?usb ?radio ?g = Some g' \<and> \<not> failsafeTriggered g'
          \<and> events g' = [SAFE_FAILSAFE_CLEAR]"
    unfolding tripped_state by simp
  then show ?thesis using tripped_state(1) tr two_ports_times by blast
qed

lemma length_fold_list_update [simp]: "length (fold (\<lambda>i ys. ys[i := v]) js xs) = length xs"
  by (induction js arbitrary: xs) simp_all

lemma length_fold_updateJoint [simp]:
  "length (speeds (fold (updateJoint cmds) js c)) = length (speeds c)"
  "length (angles (fold (updateJoint cmds) js c)) = length (angles c)"
  by (induction js arbitrary: c) simp_all

lemma ServoController_update_length [simp]:
  "length (speeds (ServoController_update cmds c)) = length (speeds c)"
  "length (angles (ServoController_update cmds c)) = length (angles c)"
  by (simp_all add: ServoController_update_def)

lemma ServoController_emergencyStop_simps [simp]:
  "length (speeds (ServoController_emergencyStop c)) = length (speeds c)"
  "angles (ServoController_emergencyStop c) = angles c"
  by (simp_all add: ServoController_emergencyStop_def)

lemma targetPWM_Motor_update [simp]: "targetPWM (Motor_update m) = targetPWM m"
  by (simp add: Motor_update_def)

lemma failsafeCheck_state_ok: "state_ok g \<Longrightarrow> state_ok (failsafeCheck now g)"
  by (simp add: failsafeCheck_def state_ok_def transmitCode_def)

lemma failsafeCheck_flags_ok: "flags_ok g \<Longrightarrow> flags_ok (failsafeCheck now g)"
  by (simp add: failsafeCheck_def flags_ok_def transmitCode_def Motor_emergencyStop_def)

lemma failsafeCheck_indices [simp]:
  "usbIndex (failsafeCheck now g) = usbIndex g"
  "radioIndex (failsafeCheck now g) = radioIndex g"
  by (simp_all add: failsafeCheck_def transmitCode_def)

lemma updateMotors_state_ok: "state_ok g \<Longrightarrow> state_ok (updateMotors now g)"
  by (simp add: updateMotors_def state_ok_def)

lemma updateMotors_flags_ok: "flags_ok g \<Longrightarrow> flags_ok (updateMotors now g)"
  by (simp add: updateMotors_def flags_ok_def)

lemma updateServos_state_ok: "state_ok g \<Longrightarrow> state_ok (updateServos now g)"
  by (simp add: updateServos_def state_ok_def)

lemma updateServos_flags_ok: "flags_ok g \<Longrightarrow> flags_ok (updateServos now g)"
  by (simp add: updateServos_def flags_ok_def)

lemma updateLeds_ok:
  assumes "state_ok g"
  shows "\<exists>l. updateLeds ledNow g = Some (g\<lparr>ledSys := l\<rparr>) \<and> state_ok (g\<lparr>ledSys := l\<rparr>)"
proof -
  have "scanner_ok (ledSys g)" using assms by (simp add: state_ok_def)
  then obtain l where "LedController_update ledNow (isLeftMotorActive g) (isRightMotorActive g)
              (ServoController_isActive (controller g)) (serialCommunicationFlag g) (ledSys g) = Some l"
    and "scanner_ok l"
    using LedController_update_ok by blast
  then show ?thesis using assms by (auto simp: updateLeds_def state_ok_def)
qed

lemma loop_invariant:
  assumes "state_ok g" and "flags_ok g"
  shows "\<exists>g'. loop now usb radio ledNow g = Some g' \<and> state_ok g' \<and> flags_ok g'"
proof -
  obtain g2 where r: "readInputs usb radio g = Some g2" and ok2: "state_ok g2" and f2: "flags_ok g2"
    using readInputs_invariant [OF assms(1), of flags_ok usb radio] assms(2) processCommand_flags_ok
    by (auto simp: flags_ok_def)
  let ?g5 = "updateServos now (updateMotors now (failsafeCheck now g2))"
  have ok5: "state_ok ?g5"
    using ok2 by (simp add: failsafeCheck_state_ok updateMotors_state_ok updateServos_state_ok)
  have f5: "flags_ok ?g5"
    using f2 by (simp add: failsafeCheck_flags_ok updateMotors_flags_ok updateServos_flags_ok)
  obtain l where "updateLeds ledNow ?g5 = Some (?g5\<lparr>ledSys := l\<rparr>)" and "state_ok (?g5\<lparr>ledSys := l\<rparr>)"
    using updateLeds_ok [OF ok5] by blast
  moreover have "flags_ok (?g5\<lparr>ledSys := l\<rparr>)" using f5 by (simp add: flags_ok_def)
  ultimately show ?thesis using r by (simp add: loop_def)
qed

lemma run_invariant:
  "state_ok g \<Longrightarrow> flags_ok g \<Longrightarrow> \<exists>g'. run ps g = Some g' \<and> state_ok g' \<and> flags_ok g'"
proof (induction ps arbitrary: g)
  case Nil
  then show ?case by simp
next
  case (Cons p ps)
  obtain now usb radio ledNow where p: "p = (now, usb, radio, ledNow)" by (cases p) auto
  obtain g1 where "loop now usb radio ledNow g = Some g1" "state_ok g1" "flags_ok g1"
    using loop_invariant [OF Cons.prems] by blast
  then show ?case using Cons.IH [of g1] p by simp
qed

lemma setup_node_ok:
  "state_ok (setup_node sdOk wdtReset t0 initial_globals)"
  "flags_ok (setup_node sdOk wdtReset t0 initial_globals)"
  by (simp_all add: setup_node_def initial_globals_def transmitCode_def state_ok_def flags_ok_def
        buffer_ok_def MAX_CMD_LEN_def numServos_def ServoController_new_def LedController_new_def
        scanner_ok_def Motor_begin_def Motor_emergencyStop_def Motor_new_def Let_def)

text \<open>
  Claim C9. In every state the control loop reaches from \<open>setup\<close>, whatever the two
  ports deliver and whatever the clock reads, each stored motor activity flag equals
  whether that motor's target is non-zero. (No pass fails: \<open>run\<close> yields a state.)
\<close>

theorem activity_flags_track_targets:
  "\<exists>g. run ps (setup_node sdOk wdtReset t0 initial_globals) = Some g
      \<and> isLeftMotorActive g = (targetPWM (leftMotor g) \<noteq> 0)
      \<and> isRightMotorActive g = (targetPWM (rightMotor g) \<noteq> 0)"
proof -
  have "state_ok (setup_node sdOk wdtReset t0 initial_globals)"
    and "flags_ok (setup_node sdOk wdtReset t0 initial_globals)"
    by (rule setup_node_ok)+
  then show ?thesis
    using run_invariant [of "setup_node sdOk wdtReset t0 initial_globals" ps]
    unfolding flags_ok_def by blast
qed

lemma drive_command_run:
  "(case run [(10, [(CHR ''1'', 5), (CHR ''0'', 5), (CHR ''0'', 5), (CHR '','', 5), (CHR ''0'', 5), (CHR 0x0A, 6)], [], 10),
              (20, [], [], 20)]
          (setup_node True False 0 initial_globals) of
      Some g \<Rightarrow> isLeftMotorActive g \<and> targetPWM (leftMotor g) = 100 \<and> currentPWM (leftMotor g) = 10
               \<and> \<not> isRightMotorActive g \<and> targetPWM (rightMotor g) = 0
    | None \<Rightarrow> False)"
  by code_simp

theorem activity_flags_track_targets_witness:
  "\<exists>g. run [(10, [(CHR ''1'', 5), (CHR ''0'', 5), (CHR ''0'', 5), (CHR '','', 5), (CHR ''0'', 5), (CHR 0x0A, 6)], [], 10),
             (20, [], [], 20)]
          (setup_node True False 0 initial_globals) = Some g
      \<and> isLeftMotorActive g \<and> targetPWM (leftMotor g) = 100
      \<and> \<not> isRightMotorActive g \<and> targetPWM (rightMotor g) = 0
      \<and> isLeftMotorActive g = (targetPWM (leftMotor g) \<noteq> 0)
      \<and> isRightMotorActive g = (targetPWM (rightMotor g) \<noteq> 0)"
  using drive_command_run
    activity_flags_track_targets
      [of "[(10, [(CHR ''1'', 5), (CHR ''0'', 5), (CHR ''0'', 5), (CHR '','', 5), (CHR ''0'', 5), (CHR 0x0A, 6)], [], 10),
            (20, [], [], 20)]" True False 0]
  by (auto simp del: run.simps)

section \<open>The failsafe trip\<close>

lemma Motor_update_halted:
  "targetPWM m = 0 \<Longrightarrow> currentPWM m = 0 \<Longrightarrow> Motor_update m = m"
  by (simp add: Motor_update_def)

lemma ServoController_update_halted:
  assumes "speeds c = replicate numServos 0"
  shows "speeds (ServoController_update (replicate numServos NUL) c) = replicate numServos 0"
  using assms
  by (simp add: ServoController_update_def numServos_def upt_6 updateJoint_def rampSpeed_def
        replicate_6 NUL_def Let_def)

lemma failsafeCheck_trip:
  assumes "state_ok g" and "\<not> failsafeTriggered g" and "now - lastCommandTime g > FAILSAFE_TIMEOUT g"
  shows "halted (failsafeCheck now g) \<and> failsafeTriggered (failsafeCheck now g)
       \<and> events (failsafeCheck now g) = events g @ [SAFE_FAILSAFE_TRIGGER]"
proof -
  have "length (servoCommands g) = 6" "length (speeds (controller g)) = 6"
    using assms(1) by (simp_all add: state_ok_def numServos_def)
  then show ?thesis
    using assms(2,3)
    by (simp add: failsafeCheck_def halted_def transmitCode_def Motor_emergencyStop_def
          ServoController_emergencyStop_def numServos_def fold_clear_6)
qed

lemma failsafeCheck_tripped: "failsafeTriggered g \<Longrightarrow> failsafeCheck now g = g"
  by (simp add: failsafeCheck_def)

lemma actuation_steps_halted:
  assumes "state_ok g" and "halted g"
  shows "\<exists>g'. updateLeds ledNow (updateServos now (updateMotors now g)) = Some g'
           \<and> state_ok g' \<and> halted g'
           \<and> failsafeTriggered g' = failsafeTriggered g \<and> events g' = events g
           \<and> usbIndex g' = usbIndex g \<and> radioIndex g' = radioIndex g"
proof -
  let ?g4 = "updateMotors now g"
  let ?g5 = "updateServos now ?g4"
  have h4: "halted ?g4"
    using assms(2) by (simp add: updateMotors_def halted_def Motor_update_halted)
  have h5: "halted ?g5"
    using h4 by (simp add: updateServos_def halted_def ServoController_update_halted)
  have ok5: "state_ok ?g5" using assms(1) by (simp add: updateMotors_state_ok updateServos_state_ok)
  have fr: "failsafeTriggered ?g5 = failsafeTriggered g" "events ?g5 = events g"
      "usbIndex ?g5 = usbIndex g" "radioIndex ?g5 = radioIndex g"
    by (simp_all add: updateServos_def updateMotors_def)
  obtain l where "updateLeds ledNow ?g5 = Some (?g5\<lparr>ledSys := l\<rparr>)" and "state_ok (?g5\<lparr>ledSys := l\<rparr>)"
    using updateLeds_ok [OF ok5] by blast
  moreover have "halted (?g5\<lparr>ledSys := l\<rparr>)" using h5 by (simp add: halted_def)
  ultimately show ?thesis using fr by simp
qed

lemma halted_buffers [simp]:
  "halted (g\<lparr>usbBuffer := ub, usbIndex := ui, radioBuffer := rb, radioIndex := ri\<rparr>) = halted g"
  by (simp add: halted_def)

lemma state_ok_buffers:
  "state_ok g \<Longrightarrow> buffer_ok ub ui \<Longrightarrow> buffer_ok rb ri \<Longrightarrow>
   state_ok (g\<lparr>usbBuffer := ub, usbIndex := ui, radioBuffer := rb, radioIndex := ri\<rparr>)"
  by (simp add: state_ok_def)

lemma tripped_pass:
  assumes "state_ok g" and "halted g" and "failsafeTriggered g"
    and "dispatch_times usb (usbIndex g) = []" and "dispatch_times radio (radioIndex g) = []"
  shows "\<exists>g'. loop now usb radio ledNow g = Some g' \<and> state_ok g' \<and> halted g' \<and> failsafeTriggered g'
           \<and> events g' = events g
           \<and> usbIndex g' = index_after usb (usbIndex g) \<and> radioIndex g' = index_after radio (radioIndex g)"
proof -
  obtain ub rb where r: "readInputs usb radio g =
            Some (g\<lparr>usbBuffer := ub, usbIndex := index_after usb (usbIndex g),
                    radioBuffer := rb, radioIndex := index_after radio (radioIndex g)\<rparr>)"
      and b: "buffer_ok ub (index_after usb (usbIndex g))" "buffer_ok rb (index_after radio (radioIndex g))"
    using readInputs_quiet [OF assms(1,4,5)] by blast
  let ?g2 = "g\<lparr>usbBuffer := ub, usbIndex := index_after usb (usbIndex g),
                    radioBuffer := rb, radioIndex := index_after radio (radioIndex g)\<rparr>"
  have ok2: "state_ok ?g2" using state_ok_buffers [OF assms(1) b] .
  have h2: "halted ?g2" using assms(2) by simp
  have t2: "failsafeCheck now ?g2 = ?g2" using assms(3) by (simp add: failsafeCheck_tripped)
  obtain g' where "updateLeds ledNow (updateServos now (updateMotors now ?g2)) = Some g'"
      "state_ok g'" "halted g'" "failsafeTriggered g' = failsafeTriggered ?g2" "events g' = events ?g2"
      "usbIndex g' = usbIndex ?g2" "radioIndex g' = radioIndex ?g2"
    using actuation_steps_halted [OF ok2 h2] by blast
  then show ?thesis using r t2 assms(3) by (simp add: loop_def)
qed

lemma tripping_pass:
  assumes "state_ok g" and "\<not> failsafeTriggered g" and "now - lastCommandTime g > FAILSAFE_TIMEOUT g"
    and "dispatch_times usb (usbIndex g) = []" and "dispatch_times radio (radioIndex g) = []"
  shows "\<exists>g'. loop now usb radio ledNow g = Some g' \<and> state_ok g' \<and> halted g' \<and> failsafeTriggered g'
           \<and> events g' = events g @ [SAFE_FAILSAFE_TRIGGER]
           \<and> usbIndex g' = index_after usb (usbIndex g) \<and> radioIndex g' = index_after radio (radioIndex g)"
proof -
  obtain ub rb where r: "readInputs usb radio g =
            Some (g\<lparr>usbBuffer := ub, usbIndex := index_after usb (usbIndex g),
                    radioBuffer := rb, radioIndex := index_after radio (radioIndex g)\<rparr>)"
      and b: "buffer_ok ub (index_after usb (usbIndex g))" "buffer_ok rb (index_after radio (radioIndex g))"
    using readInputs_quiet [OF assms(1,4,5)] by blast
  let ?g2 = "g\<lparr>usbBuffer := ub, usbIndex := index_after usb (usbIndex g),
                    radioBuffer := rb, radioIndex := index_after radio (radioIndex g)\<rparr>"
  let ?g3 = "failsafeCheck now ?g2"
  have ok2: "state_ok ?g2" using state_ok_buffers [OF assms(1) b] .
  have trip: "halted ?g3 \<and> failsafeTriggered ?g3 \<and> events ?g3 = events ?g2 @ [SAFE_FAILSAFE_TRIGGER]"
    using failsafeCheck_trip [OF ok2, of now] assms(2,3) by simp
  have ok3: "state_ok ?g3" using ok2 by (rule failsafeCheck_state_ok)
  obtain g' where "updateLeds ledNow (updateServos now (updateMotors now ?g3)) = Some g'"
      "state_ok g'" "halted g'" "failsafeTriggered g' = failsafeTriggered ?g3" "events g' = events ?g3"
      "usbIndex g' = usbIndex ?g3" "radioIndex g' = radioIndex ?g3"
    using actuation_steps_halted [OF ok3] trip by blast
  then show ?thesis using r trip by (simp add: loop_def)
qed

lemma quiet_run_halted:
  "state_ok g \<Longrightarrow> halted g \<Longrightarrow> failsafeTriggered g \<Longrightarrow> quiet ps (usbIndex g) (radioIndex g) \<Longrightarrow>
   \<exists>g'. run ps g = Some g' \<and> halted g' \<and> failsafeTriggered g' \<and> events g' = events g"
proof (induction ps arbitrary: g)
  case Nil
  then show ?case by simp
next
  case (Cons p ps)
  obtain now usb radio ledNow where p: "p = (now, usb, radio, ledNow)" by (cases p) auto
  have q: "dispatch_times usb (usbIndex g) = []" "dispatch_times radio (radioIndex g) = []"
      "quiet ps (index_after usb (usbIndex g)) (index_after radio (radioIndex g))"
    using Cons.prems(4) p by simp_all
  obtain g1 where 1: "loop now usb radio ledNow g = Some g1" "state_ok g1" "halted g1" "failsafeTriggered g1"
      "events g1 = events g" "usbIndex g1 = index_after usb (usbIndex g)"
      "radioIndex g1 = index_after radio (radioIndex g)"
    using tripped_pass [OF Cons.prems(1,2,3) q(1,2)] by blast
  then have "quiet ps (usbIndex g1) (radioIndex g1)" using q(3) by simp
  then obtain g' where "run ps g1 = Some g'" "halted g'" "failsafeTriggered g'" "events g' = events g1"
    using Cons.IH [OF 1(2,3,4)] by blast
  then show ?case using 1 p by simp
qed

lemma actuators_buffers [simp]:
  "actuators (g\<lparr>usbBuffer := ub, usbIndex := ui\<rparr>) = actuators g"
  "actuators (g\<lparr>radioBuffer := rb, radioIndex := ri\<rparr>) = actuators g"
  by (simp_all add: actuators_def)

lemma halted_actuators: "actuators g' = actuators g \<Longrightarrow> halted g' = halted g"
  by (auto simp: actuators_def halted_def)

lemma readInputs_rejected:
  assumes ok: "state_ok g" and rej: "list_all (\<lambda>d. rejected (snd d)) (pass_lines usb radio g)"
  shows "\<exists>g'. readInputs usb radio g = Some g' \<and> state_ok g' \<and> actuators g' = actuators g"
proof -
  have bu: "buffer_ok (usbBuffer g) (usbIndex g)" and br: "buffer_ok (radioBuffer g) (radioIndex g)"
    using ok by (simp_all add: state_ok_def)
  let ?P = "\<lambda>h. radioBuffer h = radioBuffer g \<and> radioIndex h = radioIndex g"
  obtain ub g1 where 1: "checkInput usb (usbBuffer g, usbIndex g, g) = Some ([], ub, index_after usb (usbIndex g), g1)"
    and fr: "?P g1"
    using checkInput_invariant [OF bu, of ?P g usb] by auto
  let ?g1 = "g1\<lparr>usbBuffer := ub, usbIndex := index_after usb (usbIndex g)\<rparr>"
  have r1: "list_all (\<lambda>d. rejected (snd d)) (dispatched usb (usbBuffer g, usbIndex g, g))"
    and r2: "list_all (\<lambda>d. rejected (snd d)) (dispatched radio (radioBuffer ?g1, radioIndex ?g1, ?g1))"
    using rej 1 by (simp_all add: pass_lines_def)
  have a1: "actuators g1 = actuators g" using checkInput_rejected [OF bu r1 1] .
  have br1: "buffer_ok (radioBuffer ?g1) (radioIndex ?g1)" using br fr by simp
  obtain rb g2 where 2: "checkInput radio (radioBuffer ?g1, radioIndex ?g1, ?g1)
        = Some ([], rb, index_after radio (radioIndex ?g1), g2)"
    using checkInput_total [OF br1] by blast
  have a2: "actuators g2 = actuators ?g1" using checkInput_rejected [OF br1 r2 2] .
  let ?g2 = "g2\<lparr>radioBuffer := rb, radioIndex := index_after radio (radioIndex ?g1)\<rparr>"
  have r: "readInputs usb radio g = Some ?g2" using 1 2 by (simp add: readInputs_def)
  have "actuators ?g2 = actuators g" using a1 a2 by simp
  moreover obtain g' where "readInputs usb radio g = Some g'" "state_ok g'"
    using readInputs_invariant [OF ok, of "\<lambda>_. True" usb radio] by auto
  ultimately show ?thesis using r by auto
qed

lemma failsafeCheck_halted: "state_ok g \<Longrightarrow> halted g \<Longrightarrow> halted (failsafeCheck now g)"
  using failsafeCheck_trip [of g now] by (cases "\<not> failsafeTriggered g \<and> now - lastCommandTime g > FAILSAFE_TIMEOUT g")
    (auto simp: failsafeCheck_def)

lemma rejected_pass:
  assumes "state_ok g" and "halted g" and "list_all (\<lambda>d. rejected (snd d)) (pass_lines usb radio g)"
  shows "\<exists>g'. loop now usb radio ledNow g = Some g' \<and> state_ok g' \<and> halted g'"
proof -
  obtain g2 where r: "readInputs usb radio g = Some g2" and ok2: "state_ok g2"
    and a: "actuators g2 = actuators g"
    using readInputs_rejected [OF assms(1,3)] by blast
  have h2: "halted g2" using halted_actuators [OF a] assms(2) by simp
  let ?g3 = "failsafeCheck now g2"
  have ok3: "state_ok ?g3" using ok2 by (rule failsafeCheck_state_ok)
  have h3: "halted ?g3" using ok2 h2 by (rule failsafeCheck_halted)
  obtain g' where "updateLeds ledNow (updateServos now (updateMotors now ?g3)) = Some g'"
      "state_ok g'" "halted g'"
    using actuation_steps_halted [OF ok3 h3] by blast
  then show ?thesis using r by (simp add: loop_def)
qed

lemma only_rejected_run_halted:
  "state_ok g \<Longrightarrow> halted g \<Longrightarrow> only_rejected ps g \<Longrightarrow> \<exists>g'. run ps g = Some g' \<and> state_ok g' \<and> halted g'"
proof (induction ps arbitrary: g)
  case Nil
  then show ?case by simp
next
  case (Cons p ps)
  obtain now usb radio ledNow where p: "p = (now, usb, radio, ledNow)" by (cases p) auto
  have rej: "list_all (\<lambda>d. rejected (snd d)) (pass_lines usb radio g)"
    using Cons.prems(3) p by simp
  obtain g1 where 1: "loop now usb radio ledNow g = Some g1" "state_ok g1" "halted g1"
    using rejected_pass [OF Cons.prems(1,2) rej] by blast
  then have "only_rejected ps g1" using Cons.prems(3) p by simp
  then obtain g' where "run ps g1 = Some g'" "state_ok g'" "halted g'"
    using Cons.IH [OF 1(2,3)] by blast
  then show ?case using 1 p by simp
qed

lemma only_rejected_append:
  "only_rejected (qs @ ps) g \<Longrightarrow> run qs g = Some g' \<Longrightarrow> only_rejected ps g'"
proof (induction qs arbitrary: g)
  case Nil
  then show ?case by simp
next
  case (Cons q qs)
  obtain now usb radio ledNow where q: "q = (now, usb, radio, ledNow)" by (cases q) auto
  obtain g1 where 1: "loop now usb radio ledNow g = Some g1"
    using Cons.prems(2) q by (cases "loop now usb radio ledNow g") simp_all
  then have "only_rejected (qs @ ps) g1" "run qs g1 = Some g'"
    using Cons.prems q by simp_all
  then show ?case by (rule Cons.IH)
qed

lemma quiet_run_state_ok:
  "state_ok g \<Longrightarrow> halted g \<Longrightarrow> failsafeTriggered g \<Longrightarrow> quiet ps (usbIndex g) (radioIndex g) \<Longrightarrow>
   \<exists>g'. run ps g = Some g' \<and> state_ok g' \<and> halted g' \<and> failsafeTriggered g' \<and> events g' = events g"
proof (induction ps arbitrary: g)
  case Nil
  then show ?case by simp
next
  case (Cons p ps)
  obtain now usb radio ledNow where p: "p = (now, usb, radio, ledNow)" by (cases p) auto
  have q: "dispatch_times usb (usbIndex g) = []" "dispatch_times radio (radioIndex g) = []"
      "quiet ps (index_after usb (usbIndex g)) (index_after radio (radioIndex g))"
    using Cons.prems(4) p by simp_all
  obtain g1 where 1: "loop now usb radio ledNow g = Some g1" "state_ok g1" "halted g1" "failsafeTriggered g1"
      "events g1 = events g" "usbIndex g1 = index_after usb (usbIndex g)"
      "radioIndex g1 = index_after radio (radioIndex g)"
    using tripped_pass [OF Cons.prems(1,2,3) q(1,2)] by blast
  then have "quiet ps (usbIndex g1) (radioIndex g1)" using q(3) by simp
  then obtain g' where "run ps g1 = Some g'" "state_ok g'" "halted g'" "failsafeTriggered g'" "events g' = events g1"
    using Cons.IH [OF 1(2,3,4)] by blast
  then show ?case using 1 p by simp
qed

lemma driving_eval:
  "(let g = driving;
        p0 = (600, [], [(CHR ''x'', 600)], 600);
        qs = [(610, [(CHR 0x0A, 610)], [(CHR ''y'', 610)], 610)];
        ps = [(620, [(CHR ''S'', 620), (CHR ''9'', 620), (CHR ''X'', 620), (CHR 0x0A, 620)], [], 621),
              (1300, [], [(CHR 0x0A, 1300), (CHR ''7'', 1300), (CHR 0x0D, 1300)], 1302)]
    in state_ok g \<and> \<not> failsafeTriggered g \<and> 600 - lastCommandTime g > FAILSAFE_TIMEOUT g
       \<and> quiet (p0 # qs) (usbIndex g) (radioIndex g)
       \<and> only_rejected (p0 # qs @ ps) g
       \<and> currentPWM (leftMotor g) = 10 \<and> targetPWM (rightMotor g) = - 40
       \<and> servoCommands g ! 1 = CHR ''R'' \<and> speeds (controller g) ! 1 = 13421773 / 268435456
       \<and> (case run (p0 # qs) g of
             None \<Rightarrow> False
           | Some g2 \<Rightarrow>
               map fst (pass_lines [(CHR ''S'', 620), (CHR ''9'', 620), (CHR ''X'', 620), (CHR 0x0A, 620)] [] g2)
                 = [620]
               \<and> (case run (p0 # qs @ ps) g of
                     None \<Rightarrow> False
                   | Some g3 \<Rightarrow> events g3 = events g @ [SAFE_FAILSAFE_TRIGGER, SAFE_FAILSAFE_CLEAR]
                                \<and> \<not> failsafeTriggered g3 \<and> lastCommandTime g3 = 1300)))"
  by code_simp

text \<open>
  Claim C2 fails as stated. From the state \<open>driving\<close>, whose last command was dispatched
  at time 8, the radio delivers only the line \<open>S9X\<close>, which \<open>processCommand\<close> drops, at
  times 400, 800 and 1200. No valid command is parsed for more than twice the timeout of
  500, yet every dispatch resets the timer: the failsafe never trips, no event is emitted
  and the left motor keeps ramping towards its target of 100.
\<close>

theorem noise_keeps_failsafe_armed:
  "(let g0 = driving
    in lastCommandTime g0 = 8 \<and> FAILSAFE_TIMEOUT g0 = 500 \<and> \<not> failsafeTriggered g0
       \<and> rejected ''S9X''
       \<and> (case run [(400, [], [(CHR ''S'', 400), (CHR ''9'', 400), (CHR ''X'', 400), (CHR 0x0A, 400)], 400),
                     (800, [], [(CHR ''S'', 800), (CHR ''9'', 800), (CHR ''X'', 800), (CHR 0x0A, 800)], 800),
                     (1200, [], [(CHR ''S'', 1200), (CHR ''9'', 1200), (CHR ''X'', 1200), (CHR 0x0A, 1200)], 1200)]
                    g0 of
             Some g \<Rightarrow> \<not> failsafeTriggered g \<and> events g = events g0
                      \<and> targetPWM (leftMotor g) = 100 \<and> currentPWM (leftMotor g) = 25
                      \<and> lastCommandTime g = 1200
           | None \<Rightarrow> False))"
  by code_simp

text \<open>
  Claim C2, amended. Let the failsafe be armed and the deadline exceeded
  (\<open>now - lastCommandTime > FAILSAFE_TIMEOUT\<close>, the timer being reset by every dispatched
  line, valid or not). The failsafe check alone zeroes both motors' target and current,
  all six joint speeds and all six pending joint commands, sets the tripped flag and
  emits \<open>SAFE_FAILSAFE_TRIGGER\<close> once. A pass that dispatches no line ends in that state;
  through the following passes \<open>qs\<close> in which no line is dispatched the values stay zero,
  the flag stays set and no further event is emitted; and through the passes \<open>ps\<close> after
  those, in which every dispatched line is one that \<open>processCommand\<close> drops, the values
  still stay zero.
\<close>

theorem failsafe_trip_zeroes_and_holds:
  assumes "state_ok g" and "\<not> failsafeTriggered g" and "now - lastCommandTime g > FAILSAFE_TIMEOUT g"
    and "quiet ((now, usb, radio, ledNow) # qs) (usbIndex g) (radioIndex g)"
    and "only_rejected ((now, usb, radio, ledNow) # qs @ ps) g"
  shows "halted (failsafeCheck now g) \<and> failsafeTriggered (failsafeCheck now g)
       \<and> events (failsafeCheck now g) = events g @ [SAFE_FAILSAFE_TRIGGER]
       \<and> (\<exists>g1. loop now usb radio ledNow g = Some g1 \<and> halted g1 \<and> failsafeTriggered g1
              \<and> events g1 = events g @ [SAFE_FAILSAFE_TRIGGER]
              \<and> (\<exists>g2. run qs g1 = Some g2 \<and> halted g2 \<and> failsafeTriggered g2
                       \<and> events g2 = events g1
                       \<and> (\<exists>g3. run ps g2 = Some g3 \<and> halted g3)))"
proof -
  have q: "dispatch_times usb (usbIndex g) = []" "dispatch_times radio (radioIndex g) = []"
      "quiet qs (index_after usb (usbIndex g)) (index_after radio (radioIndex g))"
    using assms(4) by simp_all
  obtain g1 where 1: "loop now usb radio ledNow g = Some g1" "state_ok g1" "halted g1" "failsafeTriggered g1"
      "events g1 = events g @ [SAFE_FAILSAFE_TRIGGER]"
      "usbIndex g1 = index_after usb (usbIndex g)" "radioIndex g1 = index_after radio (radioIndex g)"
    using tripping_pass [OF assms(1,2,3) q(1,2)] by blast
  have r1: "only_rejected (qs @ ps) g1" using assms(5) 1(1) by simp
  have "quiet qs (usbIndex g1) (radioIndex g1)" using q(3) 1 by simp
  then obtain g2 where 2: "run qs g1 = Some g2" "state_ok g2" "halted g2" "failsafeTriggered g2"
      "events g2 = events g1"
    using quiet_run_state_ok [OF 1(2,3,4)] by blast
  have "only_rejected ps g2" using r1 2(1) by (rule only_rejected_append)
  then obtain g3 where "run ps g2 = Some g3" "halted g3"
    using only_rejected_run_halted [OF 2(2,3)] by blast
  then show ?thesis using failsafeCheck_trip [OF assms(1,2,3)] 1 2 by blast
qed

theorem failsafe_trip_zeroes_and_holds_witness:
  "state_ok driving \<and> \<not> failsafeTriggered driving
   \<and> 600 - lastCommandTime driving > FAILSAFE_TIMEOUT driving
   \<and> currentPWM (leftMotor driving) = 10 \<and> targetPWM (rightMotor driving) = - 40
   \<and> servoCommands driving ! 1 = CHR ''R'' \<and> speeds (controller driving) ! 1 = 13421773 / 268435456
   \<and> halted (failsafeCheck 600 driving)
   \<and> (\<exists>g1. loop 600 [] [(CHR ''x'', 600)] 600 driving = Some g1 \<and> halted g1 \<and> failsafeTriggered g1
          \<and> events g1 = events driving @ [SAFE_FAILSAFE_TRIGGER]
          \<and> (\<exists>g2. run [(610, [(CHR 0x0A, 610)], [(CHR ''y'', 610)], 610)] g1 = Some g2
                   \<and> halted g2 \<and> failsafeTriggered g2 \<and> events g2 = events g1
                   \<and> (\<exists>g3. run [(620, [(CHR ''S'', 620), (CHR ''9'', 620), (CHR ''X'', 620), (CHR 0x0A, 620)],
                                   [], 621),
                                  (1300, [], [(CHR 0x0A, 1300), (CHR ''7'', 1300), (CHR 0x0D, 1300)], 1302)] g2
                              = Some g3
                            \<and> halted g3)))"
proof -
  note e = driving_eval [unfolded Let_def]
  have h: "state_ok driving" "\<not> failsafeTriggered driving"
    "600 - lastCommandTime driving > FAILSAFE_TIMEOUT driving"
    "quiet ((600, [], [(CHR ''x'', 600)], 600) # [(610, [(CHR 0x0A, 610)], [(CHR ''y'', 610)], 610)])
       (usbIndex driving) (radioIndex driving)"
    "only_rejected ((600, [], [(CHR ''x'', 600)], 600) # [(610, [(CHR 0x0A, 610)], [(CHR ''y'', 610)], 610)]
         @ [(620, [(CHR ''S'', 620), (CHR ''9'', 620), (CHR ''X'', 620), (CHR 0x0A, 620)], [], 621),
            (1300, [], [(CHR 0x0A, 1300), (CHR ''7'', 1300), (CHR 0x0D, 1300)], 1302)]) driving"
    using e by blast+
  have v: "currentPWM (leftMotor driving) = 10" "targetPWM (rightMotor driving) = - 40"
    "servoCommands driving ! 1 = CHR ''R''" "speeds (controller driving) ! 1 = 13421773 / 268435456"
    using e by blast+
  show ?thesis
    using h(1,2,3) v failsafe_trip_zeroes_and_holds [OF h]
    by blast
qed

end
